theory Spec2Isabelle
  imports Complex_Main "HOL-Library.Sublist"
begin

section \<open>Data model\<close>

text \<open>
  The renderer of \<^verbatim>\<open>colcon_package_information/verb/list.py\<close> (\<^verbatim>\<open>ListVerb.main\<close>) works on
  the decorators that colcon-core hands over: one per package, in topological order, each
  with its descriptor, its selection flag and its precomputed recursive dependencies.

  Python sets and dictionaries are modelled as lists: a dictionary as an association list
  in insertion order, a set as the list of its elements in the order in which the program
  iterates over it. Python leaves the order of a set open; for a set that the program
  builds itself the model takes the order of insertion. The general statements below speak
  of membership and do not depend on that order; the examples show the lines in one such
  order.
\<close>

datatype py_error = ValueError

text \<open>
  A \<^verbatim>\<open>pathlib.Path\<close> on POSIX: its anchor and its components. A path is relative, or
  anchored at the root \<^verbatim>\<open>/\<close>, or at \<^verbatim>\<open>//\<close>: pathlib keeps exactly two leading slashes as a
  root of their own.
\<close>

datatype anchor = Relative | Root | DoubleRoot

record py_path =
  anchor :: anchor
  parts :: "string list"

text \<open>
  \<^verbatim>\<open>PackageDescriptor\<close>. \<open>ident\<close> is \<^verbatim>\<open>id(descriptor)\<close>, the object's identity;
  \<open>dependencies\<close> maps a category (\<^verbatim>\<open>'build'\<close>, \<^verbatim>\<open>'run'\<close>, \<^verbatim>\<open>'test'\<close>) to a set of names.
  As a dictionary key a descriptor is compared as a whole record: colcon-core hands over
  every package once, so that equal keys are the same object.
\<close>

record descriptor =
  ident :: nat
  name :: string
  path :: py_path
  pkg_type :: string
  dependencies :: "(string \<times> string list) list"

text \<open>\<^verbatim>\<open>PackageDecorator\<close>.\<close>

record decorator =
  descriptor :: descriptor
  recursive_dependencies :: "string list"
  selected :: bool

text \<open>What \<^verbatim>\<open>print\<close> receives: a line of text, or the density line, whose number is
  formatted by \<^verbatim>\<open>'%.2f'\<close>.\<close>

datatype printed = Text string | DensityLine real

section \<open>Python containers\<close>

text \<open>\<^verbatim>\<open>s.add(v)\<close> on a set.\<close>

definition set_add :: "'v \<Rightarrow> 'v list \<Rightarrow> 'v list" where
  "set_add v vs = (if v \<in> set vs then vs else vs @ [v])"

text \<open>\<^verbatim>\<open>m[k].add(v)\<close> on a \<^verbatim>\<open>defaultdict(set)\<close>.\<close>

fun dd_add :: "'k \<Rightarrow> 'v \<Rightarrow> ('k \<times> 'v list) list \<Rightarrow> ('k \<times> 'v list) list" where
  "dd_add k v [] = [(k, [v])]"
| "dd_add k v ((k', vs) # m) =
     (if k' = k then (k', set_add v vs) # m else (k', vs) # dd_add k v m)"

text \<open>\<^verbatim>\<open>m[k]\<close> on a \<^verbatim>\<open>defaultdict(set)\<close>: the empty set for a missing key.\<close>

definition dd_get :: "'k \<Rightarrow> ('k \<times> 'v list) list \<Rightarrow> 'v list" where
  "dd_get k m = (case map_of m k of None \<Rightarrow> [] | Some vs \<Rightarrow> vs)"

definition keys :: "('k \<times> 'v) list \<Rightarrow> 'k set" where
  "keys m = fst ` set m"

text \<open>\<^verbatim>\<open>m[k] = v\<close> on an \<^verbatim>\<open>OrderedDict\<close>: a key that is present keeps its position.\<close>

fun od_set :: "'k \<Rightarrow> 'v \<Rightarrow> ('k \<times> 'v) list \<Rightarrow> ('k \<times> 'v) list" where
  "od_set k v [] = [(k, v)]"
| "od_set k v ((k', v') # m) =
     (if k' = k then (k', v) # m else (k', v') # od_set k v m)"

section \<open>Strings\<close>

text \<open>\<^verbatim>\<open>str.ljust\<close>, \<^verbatim>\<open>str.join\<close> and \<^verbatim>\<open>str\<close> of a non-negative integer.\<close>

definition ljust :: "nat \<Rightarrow> string \<Rightarrow> string" where
  "ljust w s = s @ replicate (w - length s) (CHR '' '')"

fun join :: "string \<Rightarrow> string list \<Rightarrow> string" where
  "join sep [] = []"
| "join sep [x] = x"
| "join sep (x # y # ys) = x @ sep @ join sep (y # ys)"

definition digit_char :: "nat \<Rightarrow> char" where
  "digit_char d = ''0123456789'' ! d"

function str_nat :: "nat \<Rightarrow> string" where
  "str_nat n = (if n < 10 then [digit_char n] else str_nat (n div 10) @ [digit_char (n mod 10)])"
  by pat_completeness auto
termination
  by (relation "measure id") auto

declare str_nat.simps [simp del]

section \<open>Paths\<close>

text \<open>
  \<^verbatim>\<open>Path.parent\<close>, \<^verbatim>\<open>Path.name\<close>, \<^verbatim>\<open>str(path)\<close>, \<^verbatim>\<open>Path.relative_to\<close> and
  \<^verbatim>\<open>os.path.commonpath\<close> of the standard library, by their documented behaviour on POSIX:
  \<^verbatim>\<open>commonpath\<close> raises \<^verbatim>\<open>ValueError\<close> on an empty sequence and on a mix of absolute and
  relative paths, \<^verbatim>\<open>relative_to\<close> when the argument is not a prefix or has another anchor.
  \<^verbatim>\<open>commonpath\<close> works on strings: a string is absolute when it starts with a slash, and
  the result of absolute strings starts with a single slash, also when they all start
  with two.
\<close>

definition is_absolute :: "py_path \<Rightarrow> bool" where
  "is_absolute p = (anchor p \<noteq> Relative)"

definition parent :: "py_path \<Rightarrow> py_path" where
  "parent p = p\<lparr>parts := butlast (parts p)\<rparr>"

definition path_name :: "py_path \<Rightarrow> string" where
  "path_name p = (if parts p = [] then [] else last (parts p))"

definition path_str :: "py_path \<Rightarrow> string" where
  "path_str p =
     (case anchor p of
        Root \<Rightarrow> ''/'' @ join ''/'' (parts p)
      | DoubleRoot \<Rightarrow> ''//'' @ join ''/'' (parts p)
      | Relative \<Rightarrow> if parts p = [] then ''.'' else join ''/'' (parts p))"

definition relative_to :: "py_path \<Rightarrow> py_path \<Rightarrow> py_error + py_path" where
  "relative_to p other =
     (if anchor p = anchor other \<and> prefix (parts other) (parts p)
      then Inr \<lparr>anchor = Relative, parts = drop (length (parts other)) (parts p)\<rparr>
      else Inl ValueError)"

definition commonpath :: "py_path list \<Rightarrow> py_error + py_path" where
  "commonpath ps =
     (case ps of
        [] \<Rightarrow> Inl ValueError
      | p # qs \<Rightarrow>
          if list_ex (\<lambda>q. is_absolute q \<noteq> is_absolute p) qs then Inl ValueError
          else Inr \<lparr>anchor = (if is_absolute p then Root else Relative),
                    parts = fold (\<lambda>q c. longest_common_prefix c (parts q)) qs (parts p)\<rparr>)"

section \<open>The ASCII matrix\<close>

text \<open>
  \<^verbatim>\<open>PackageDescriptor.get_dependencies()\<close> of colcon-core with no argument: the union of the
  dependency names of all categories.
\<close>

definition get_dependencies :: "descriptor \<Rightarrow> string list" where
  "get_dependencies d = concat (map snd (dependencies d))"

definition shown_decorators :: "decorator list \<Rightarrow> decorator list" where
  "shown_decorators decorators = filter selected decorators"

definition max_length :: "decorator list \<Rightarrow> nat" where
  "max_length decorators =
     Max (set (map (\<lambda>m. length (name (descriptor m))) (shown_decorators decorators) @ [0]))"

text \<open>The body of the inner loop: the symbol appended to \<^verbatim>\<open>lines[j]\<close> for package \<open>i\<close>.\<close>

definition symbol :: "decorator list \<Rightarrow> string list list \<Rightarrow> string list list \<Rightarrow> nat \<Rightarrow> nat \<Rightarrow> char"
  where
  "symbol shown depends rec_depends i j =
     (if j = i then CHR ''+''
      else if name (descriptor (shown ! j)) \<in> set (depends ! i) then CHR ''*''
      else if name (descriptor (shown ! j)) \<in> set (rec_depends ! i) then CHR ''.''
      else CHR '' '')"

text \<open>\<^verbatim>\<open>for j in range(len(lines))\<close>, on the state \<^verbatim>\<open>(lines, empty_cells)\<close>.\<close>

definition inner_step ::
  "decorator list \<Rightarrow> string list list \<Rightarrow> string list list \<Rightarrow> nat \<Rightarrow> nat \<Rightarrow>
   string list \<times> nat \<Rightarrow> string list \<times> nat" where
  "inner_step shown depends rec_depends i j st =
     (case st of (lines, empty_cells) \<Rightarrow>
        if j = i then (lines[j := lines ! j @ ''+''], empty_cells)
        else if name (descriptor (shown ! j)) \<in> set (depends ! i)
          then (lines[j := lines ! j @ ''*''], empty_cells)
        else if name (descriptor (shown ! j)) \<in> set (rec_depends ! i)
          then (lines[j := lines ! j @ ''.''], empty_cells)
        else (lines[j := lines ! j @ '' ''], empty_cells + 1))"

text \<open>\<^verbatim>\<open>for i, decorator in enumerate(shown_decorators)\<close>.\<close>

definition outer_step ::
  "decorator list \<Rightarrow> string list list \<Rightarrow> string list list \<Rightarrow> nat \<Rightarrow>
   string list \<times> nat \<Rightarrow> string list \<times> nat" where
  "outer_step shown depends rec_depends i st =
     fold (inner_step shown depends rec_depends i) [0..<length (fst st)] st"

text \<open>
  The matrix: the lines and the number of empty cells. The first argument is colcon-core's
  \<^verbatim>\<open>PackageDescriptor.get_recursive_dependencies(descriptors, recursive_categories=('run', ))\<close>,
  which returns a set of names.
\<close>

definition matrix ::
  "(descriptor \<Rightarrow> descriptor list \<Rightarrow> string list) \<Rightarrow> decorator list \<Rightarrow> string list \<times> nat" where
  "matrix get_recursive_dependencies decorators =
     (let shown = shown_decorators decorators;
          lines = map (\<lambda>m. ljust (max_length decorators + 2) (name (descriptor m))) shown;
          depends = map (\<lambda>m. get_dependencies (descriptor m)) shown;
          rec_depends = map (\<lambda>m. get_recursive_dependencies (descriptor m)
                                     (map descriptor decorators)) shown
      in fold (outer_step shown depends rec_depends) [0..<length shown] (lines, 0))"

definition density_percentage :: "nat \<Rightarrow> nat \<Rightarrow> real" where
  "density_percentage len_lines empty_cells =
     (let empty_fraction =
            (if len_lines > 1 then real empty_cells / real (len_lines * (len_lines - 1))
             else 1)
      in 200 * (1 - empty_fraction))"

definition legend :: "string list" where
  "legend =
     [''+ marks when the package in this row can be processed'',
      ''* marks a direct dependency from the package indicated by the + in the same column to the package in this row'',
      ''. marks a transitive dependency'',
      []]"

text \<open>The branch \<^verbatim>\<open>args.topological_graph\<close> of \<^verbatim>\<open>main\<close>, with everything it prints, in order.\<close>

definition render_matrix ::
  "bool \<Rightarrow> bool \<Rightarrow> (descriptor \<Rightarrow> descriptor list \<Rightarrow> string list) \<Rightarrow> decorator list \<Rightarrow>
   printed list" where
  "render_matrix topological_graph_legend topological_graph_density
       get_recursive_dependencies decorators =
     (let (lines, empty_cells) = matrix get_recursive_dependencies decorators
      in (if topological_graph_legend then map Text legend else [])
         @ (if topological_graph_density
            then [DensityLine (density_percentage (length lines) empty_cells), Text []]
            else [])
         @ map Text lines)"

text \<open>The cell of a printed row: the symbol in column \<open>c\<close> after the padded name.\<close>

definition cell :: "decorator list \<Rightarrow> string list \<Rightarrow> nat \<Rightarrow> nat \<Rightarrow> char" where
  "cell decorators lines r c = lines ! r ! (max_length decorators + 2 + c)"

section \<open>The DOT graph\<close>

definition decorators_by_name :: "decorator list \<Rightarrow> (string \<times> decorator list) list" where
  "decorators_by_name decorators =
     fold (\<lambda>deco m. dd_add (name (descriptor deco)) deco m) decorators []"

definition selected_pkg_names :: "decorator list \<Rightarrow> string list" where
  "selected_pkg_names decorators = map (\<lambda>m. name (descriptor m)) (filter selected decorators)"

definition has_duplicate_names :: "decorator list \<Rightarrow> bool" where
  "has_duplicate_names decorators =
     (length (selected_pkg_names decorators) \<noteq> card (set (selected_pkg_names decorators)))"

text \<open>The selected descriptors and their parent paths, an \<^verbatim>\<open>OrderedDict\<close>.\<close>

definition nodes :: "decorator list \<Rightarrow> (descriptor \<times> py_path) list" where
  "nodes decorators =
     fold (\<lambda>deco m.
             if \<not> selected deco then m
             else od_set (descriptor deco) (parent (path (descriptor deco))) m)
       (rev decorators) []"

text \<open>The direct dependencies: \<^verbatim>\<open>(descriptor, name)\<close> to the set of categories.\<close>

definition direct_edges :: "decorator list \<Rightarrow> ((descriptor \<times> string) \<times> string list) list" where
  "direct_edges decorators =
     fold (\<lambda>deco edges.
        if \<not> selected deco then edges
        else fold (\<lambda>(category, deps) edges.
               fold (\<lambda>dep edges.
                  if dep \<notin> set (selected_pkg_names decorators) then edges
                  else dd_add (descriptor deco, dep) category edges)
                 deps edges)
             (dependencies (descriptor deco)) edges)
       (rev decorators) []"

text \<open>The indirect dependencies, collected once the direct ones are complete.\<close>

definition indirect_edges :: "decorator list \<Rightarrow> ((descriptor \<times> string) \<times> string list) list" where
  "indirect_edges decorators =
     fold (\<lambda>deco edges.
        if \<not> selected deco then edges
        else fold (\<lambda>(category, deps) edges.
               fold (\<lambda>dep edges.
                  if dep \<in> set (selected_pkg_names decorators) then edges
                  else if dep \<notin> keys (decorators_by_name decorators) then edges
                  else fold (\<lambda>rdep edges.
                         if rdep \<notin> set (selected_pkg_names decorators) then edges
                         else if (descriptor deco, rdep) \<in> keys (direct_edges decorators)
                           then edges
                         else dd_add (descriptor deco, rdep) category edges)
                       (concat (map recursive_dependencies
                                  (dd_get dep (decorators_by_name decorators))))
                       edges)
                 deps edges)
             (dependencies (descriptor deco)) edges)
       (rev decorators) []"

text \<open>The token of a node and its attributes.\<close>

definition get_node_data :: "bool \<Rightarrow> descriptor \<Rightarrow> string \<times> string" where
  \<open>get_node_data has_dup d =
     (if \<not> has_dup then (name d, [])
      else (name d @ ''_'' @ str_nat (ident d),
            '' [label = "'' @ name d @ ''"]''))\<close>

definition node_line :: "string \<Rightarrow> bool \<Rightarrow> descriptor \<Rightarrow> string" where
  \<open>node_line indent has_dup desc =
     (case get_node_data has_dup desc of (node_name, attributes) \<Rightarrow>
        indent @ ''"'' @ node_name @ ''"'' @ attributes @ '';'')\<close>

text \<open>\<^verbatim>\<open>clusters[path.relative_to(common_path)].add(desc)\<close> for every node.\<close>

fun cluster_nodes ::
  "py_path \<Rightarrow> (descriptor \<times> py_path) list \<Rightarrow> (py_path \<times> descriptor list) list \<Rightarrow>
   py_error + (py_path \<times> descriptor list) list" where
  "cluster_nodes c [] clusters = Inr clusters"
| "cluster_nodes c ((desc, p) # ns) clusters =
     (case relative_to p c of
        Inl e \<Rightarrow> Inl e
      | Inr rel \<Rightarrow> cluster_nodes c ns (dd_add rel desc clusters))"

definition cluster_lines :: "bool \<Rightarrow> nat \<times> py_path \<times> descriptor list \<Rightarrow> string list" where
  \<open>cluster_lines has_dup ic =
     (case ic of (i, p, descs) \<Rightarrow>
        if path_name p \<noteq> []
        then [''  subgraph cluster_'' @ str_nat i @ '' {'',
              ''    label = "'' @ path_str p @ ''";'']
             @ map (node_line ''    '' has_dup) descs
             @ [''  }'']
        else map (node_line ''  '' has_dup) descs)\<close>

definition color_mapping :: "(string \<times> string) list" where
  "color_mapping = [(''build'', ''blue''), (''run'', ''red''), (''test'', ''tan'')]"

definition colors :: "string list \<Rightarrow> string" where
  "colors categories =
     join '':'' (map snd (filter (\<lambda>(category, color). category \<in> set categories) color_mapping))"

definition edge_line :: "string \<Rightarrow> string \<Rightarrow> string \<Rightarrow> string \<Rightarrow> string" where
  \<open>edge_line start_name end_name color style =
     ''  "'' @ start_name @ ''" -> "'' @ end_name @ ''" [color="'' @ color @ ''"'' @ style
     @ ''];''\<close>

text \<open>One pass of \<^verbatim>\<open>for (desc_start, node_end), categories in edges.items()\<close>.\<close>

definition edge_lines ::
  "decorator list \<Rightarrow> string \<Rightarrow> ((descriptor \<times> string) \<times> string list) list \<Rightarrow> string list" where
  "edge_lines decorators style edges =
     concat (map (\<lambda>((desc_start, node_end), categories).
               map (\<lambda>deco.
                      edge_line (fst (get_node_data (has_duplicate_names decorators) desc_start))
                        (fst (get_node_data (has_duplicate_names decorators) (descriptor deco)))
                        (colors categories) style)
                 (dd_get node_end (decorators_by_name decorators)))
             edges)"

text \<open>\<^verbatim>\<open>common_path\<close>: \<^verbatim>\<open>None\<close> when \<^verbatim>\<open>os.path.commonpath\<close> raises \<^verbatim>\<open>ValueError\<close>.\<close>

definition common_path :: "decorator list \<Rightarrow> py_path option" where
  "common_path decorators =
     (case commonpath (map snd (nodes decorators)) of
        Inl ValueError \<Rightarrow> None
      | Inr c \<Rightarrow> Some c)"

definition output_nodes :: "decorator list \<Rightarrow> string list" where
  "output_nodes decorators =
     map (\<lambda>(desc, p). node_line ''  '' (has_duplicate_names decorators) desc) (nodes decorators)"

definition output_clusters :: "decorator list \<Rightarrow> py_path \<Rightarrow> py_error + string list" where
  "output_clusters decorators c =
     (case cluster_nodes c (nodes decorators) [] of
        Inl e \<Rightarrow> Inl e
      | Inr clusters \<Rightarrow>
          Inr (concat (map (cluster_lines (has_duplicate_names decorators))
                         (zip [0..<length clusters] clusters))))"

text \<open>The branch \<^verbatim>\<open>args.topological_graph_dot\<close> of \<^verbatim>\<open>main\<close>: the lines it prints, or the
  exception that escapes.\<close>

definition render_dot :: "bool \<Rightarrow> decorator list \<Rightarrow> py_error + string list" where
  \<open>render_dot topological_graph_dot_cluster decorators =
     (case (case common_path decorators of
              None \<Rightarrow> Inr (output_nodes decorators)
            | Some c \<Rightarrow>
                if \<not> topological_graph_dot_cluster then Inr (output_nodes decorators)
                else output_clusters decorators c) of
        Inl e \<Rightarrow> Inl e
      | Inr node_lines \<Rightarrow>
          Inr ([''digraph graphname {''] @ node_lines
               @ edge_lines decorators [] (direct_edges decorators)
               @ edge_lines decorators '', style="dashed"'' (indirect_edges decorators)
               @ [''}'']))\<close>

section \<open>Notions used in the statements\<close>

text \<open>The pairs \<open>(k, v)\<close> with \<open>v\<close> in the set stored under \<open>k\<close>.\<close>

definition entries :: "('k \<times> 'v list) list \<Rightarrow> ('k \<times> 'v) set" where
  "entries m = {(k, v). v \<in> set (dd_get k m)}"

text \<open>Every key of the dictionary holds a non-empty set.\<close>

definition filled :: "('k \<times> 'v list) list \<Rightarrow> bool" where
  "filled m = (keys m = fst ` entries m)"

text \<open>The invariant of the \<^verbatim>\<open>OrderedDict\<close> of nodes: one entry per descriptor, with its
  parent path.\<close>

definition node_inv :: "(descriptor \<times> py_path) list \<Rightarrow> bool" where
  "node_inv m = (distinct (map fst m) \<and> (\<forall>(d, p)\<in>set m. p = parent (path d)))"

text \<open>Some selected package has a path anchored at \<^verbatim>\<open>//\<close>.\<close>

definition double_rooted :: "decorator list \<Rightarrow> bool" where
  "double_rooted decorators =
     list_ex (\<lambda>m. selected m \<and> anchor (path (descriptor m)) = DoubleRoot) decorators"

text \<open>
  The cell of the matrix as the specification words it, with the edges of the two
  collectors: row \<open>i\<close>, column \<open>j\<close> shows the relation from node \<open>i\<close> to node \<open>j\<close>.
\<close>

definition claimed_cell :: "decorator list \<Rightarrow> nat \<Rightarrow> nat \<Rightarrow> char" where
  "claimed_cell decorators i j =
     (if j = i then CHR ''+''
      else if (descriptor (shown_decorators decorators ! i),
               name (descriptor (shown_decorators decorators ! j)))
              \<in> keys (direct_edges decorators)
        then CHR ''*''
      else if (descriptor (shown_decorators decorators ! i),
               name (descriptor (shown_decorators decorators ! j)))
              \<in> keys (indirect_edges decorators)
        then CHR ''.''
      else CHR '' '')"

section \<open>Example workspaces\<close>

text \<open>A package at \<^verbatim>\<open>/<dir>/<name>\<close>.\<close>

definition package ::
  "nat \<Rightarrow> string \<Rightarrow> string list \<Rightarrow> (string \<times> string list) list \<Rightarrow> string list \<Rightarrow> bool \<Rightarrow> decorator"
  where
  "package i n dir deps closure sel =
     \<lparr>descriptor = \<lparr>ident = i, name = n, path = \<lparr>anchor = Root, parts = dir @ [n]\<rparr>,
                    pkg_type = ''cmake'', dependencies = deps\<rparr>,
      recursive_dependencies = closure, selected = sel\<rparr>"

text \<open>
  \<^verbatim>\<open>A\<close> build-depends on \<^verbatim>\<open>B\<close>, \<^verbatim>\<open>B\<close> run-depends on \<^verbatim>\<open>C\<close>, \<^verbatim>\<open>C\<close> run-depends on \<^verbatim>\<open>D\<close>;
  all but \<^verbatim>\<open>C\<close> are selected. The order is topological, dependencies first.
\<close>

definition ex_chain :: "decorator list" where
  "ex_chain =
     [package 1 ''D'' [''ws'', ''x''] [] [] True,
      package 2 ''C'' [''ws'', ''x''] [(''run'', [''D''])] [''D''] False,
      package 3 ''B'' [''ws'', ''y''] [(''run'', [''C''])] [''C'', ''D''] True,
      package 4 ''A'' [''ws''] [(''build'', [''B''])] [''B'', ''C'', ''D''] True]"

text \<open>
  An instance of \<^verbatim>\<open>get_recursive_dependencies\<close>: the closure that colcon-core stored on the
  decorator of the descriptor.
\<close>

definition stored_closure :: "decorator list \<Rightarrow> descriptor \<Rightarrow> descriptor list \<Rightarrow> string list" where
  "stored_closure decorators d ds =
     concat (map recursive_dependencies (filter (\<lambda>m. descriptor m = d) decorators))"

text \<open>Three packages named \<^verbatim>\<open>x\<close>, two of them selected, and a selected package that
  build-depends on that name.\<close>

definition ex_overlay :: "decorator list" where
  "ex_overlay =
     [package 1 ''x'' [''ws''] [] [] True,
      package 2 ''x'' [''overlay''] [] [] True,
      package 3 ''x'' [''underlay''] [] [] False,
      package 4 ''a'' [''ws''] [(''build'', [''x''])] [''x''] True]"

text \<open>A package below the root and one at a relative path.\<close>

definition ex_mixed :: "decorator list" where
  "ex_mixed =
     [package 1 ''p'' [''ws''] [] [] True,
      \<lparr>descriptor = \<lparr>ident = 2, name = ''q'', path = \<lparr>anchor = Relative, parts = [''src'', ''q'']\<rparr>,
                     pkg_type = ''cmake'', dependencies = [(''run'', [''p''])]\<rparr>,
       recursive_dependencies = [''p''], selected = True\<rparr>]"

text \<open>Two selected packages at \<^verbatim>\<open>//ws/x/D\<close> and \<^verbatim>\<open>//ws/y/B\<close>.\<close>

definition ex_double_root :: "decorator list" where
  "ex_double_root =
     [\<lparr>descriptor = \<lparr>ident = 1, name = ''D'',
                     path = \<lparr>anchor = DoubleRoot, parts = [''ws'', ''x'', ''D'']\<rparr>,
                     pkg_type = ''cmake'', dependencies = []\<rparr>,
       recursive_dependencies = [], selected = True\<rparr>,
      \<lparr>descriptor = \<lparr>ident = 2, name = ''B'',
                     path = \<lparr>anchor = DoubleRoot, parts = [''ws'', ''y'', ''B'']\<rparr>,
                     pkg_type = ''cmake'', dependencies = [(''run'', [''D''])]\<rparr>,
       recursive_dependencies = [''D''], selected = True\<rparr>]"

text \<open>A workspace whose only package is not selected.\<close>

definition ex_none :: "decorator list" where
  "ex_none = [package 1 ''p'' [''ws''] [] [] False]"

section \<open>Loops as folds\<close>

lemma fold_invariant:
  assumes "\<And>x s. x \<in> set xs \<Longrightarrow> I s \<Longrightarrow> I (step x s)" and "I s"
  shows "I (fold step xs s)"
  using assms by (induction xs arbitrary: s) simp_all

lemma fold_skip:
  assumes "\<And>x s. x \<in> set xs \<Longrightarrow> step x s = s"
  shows "fold step xs s = s"
  using assms by (induction xs arbitrary: s) simp_all

section \<open>The loops of the matrix\<close>

lemma inner_step_length: "length (fst (inner_step sh dp rd i j st)) = length (fst st)"
  by (cases st) (simp add: inner_step_def)

lemma inner_loop_length:
  "length (fst (fold (inner_step sh dp rd i) js st)) = length (fst st)"
  by (induction js arbitrary: st) (simp_all add: inner_step_length)

lemma inner_step_eq:
  "inner_step sh dp rd i j (L, e) =
     (L[j := L ! j @ [symbol sh dp rd i j]],
      e + (if symbol sh dp rd i j = CHR '' '' then 1 else 0))"
  by (simp add: inner_step_def symbol_def)

lemma inner_loop_lines:
  "distinct js \<Longrightarrow> \<forall>j\<in>set js. j < length L \<Longrightarrow> r < length L \<Longrightarrow>
   fst (fold (inner_step sh dp rd i) js (L, e)) ! r =
     (if r \<in> set js then L ! r @ [symbol sh dp rd i r] else L ! r)"
proof (induction js arbitrary: L e)
  case Nil
  then show ?case by simp
next
  case (Cons j js)
  let ?L = "L[j := L ! j @ [symbol sh dp rd i j]]"
  have "fst (fold (inner_step sh dp rd i) js (?L, e + (if symbol sh dp rd i j = CHR '' '' then 1 else 0))) ! r =
        (if r \<in> set js then ?L ! r @ [symbol sh dp rd i r] else ?L ! r)"
    using Cons.prems by (intro Cons.IH) simp_all
  then show ?case
    using Cons.prems by (auto simp: inner_step_eq nth_list_update)
qed

lemma inner_loop_empty:
  "snd (fold (inner_step sh dp rd i) js (L, e)) =
     e + length (filter (\<lambda>j. symbol sh dp rd i j = CHR '' '') js)"
  by (induction js arbitrary: L e) (simp_all add: inner_step_eq)

lemma outer_step_length: "length (fst (outer_step sh dp rd i st)) = length (fst st)"
  by (simp add: outer_step_def inner_loop_length)

lemma outer_step_lines:
  "r < length L \<Longrightarrow> fst (outer_step sh dp rd i (L, e)) ! r = L ! r @ [symbol sh dp rd i r]"
  by (simp add: outer_step_def inner_loop_lines)

lemma outer_step_empty:
  "snd (outer_step sh dp rd i (L, e)) =
     e + length (filter (\<lambda>j. symbol sh dp rd i j = CHR '' '') [0..<length L])"
  by (simp add: outer_step_def inner_loop_empty)

lemma outer_loop_length:
  "length (fst (fold (outer_step sh dp rd) is st)) = length (fst st)"
  by (induction "is" arbitrary: st) (simp_all add: outer_step_length)

lemma outer_loop_lines:
  "r < length L \<Longrightarrow>
   fst (fold (outer_step sh dp rd) is (L, e)) ! r = L ! r @ map (\<lambda>i. symbol sh dp rd i r) is"
proof (induction "is" arbitrary: L e)
  case Nil
  then show ?case by simp
next
  case (Cons i "is")
  obtain L' e' where st: "outer_step sh dp rd i (L, e) = (L', e')"
    by (cases "outer_step sh dp rd i (L, e)")
  have len: "length L' = length L"
    using outer_step_length [of sh dp rd i "(L, e)"] st by simp
  have "L' ! r = L ! r @ [symbol sh dp rd i r]"
    using outer_step_lines [OF Cons.prems, of sh dp rd i e] st by simp
  moreover have "fst (fold (outer_step sh dp rd) is (L', e')) ! r =
      L' ! r @ map (\<lambda>i. symbol sh dp rd i r) is"
    using Cons.prems len by (intro Cons.IH) simp
  ultimately show ?case by (simp add: st)
qed

lemma outer_loop_empty:
  "snd (fold (outer_step sh dp rd) is (L, e)) =
     e + sum_list (map (\<lambda>i. length (filter (\<lambda>j. symbol sh dp rd i j = CHR '' '') [0..<length L])) is)"
proof (induction "is" arbitrary: L e)
  case Nil
  then show ?case by simp
next
  case (Cons i "is")
  obtain L' e' where st: "outer_step sh dp rd i (L, e) = (L', e')"
    by (cases "outer_step sh dp rd i (L, e)")
  have len: "length L' = length L"
    using outer_step_length [of sh dp rd i "(L, e)"] st by simp
  have "e' = e + length (filter (\<lambda>j. symbol sh dp rd i j = CHR '' '') [0..<length L])"
    using outer_step_empty [of sh dp rd i L e] st by simp
  then show ?case
    by (simp add: st Cons.IH len)
qed

lemma length_ljust: "length s \<le> w \<Longrightarrow> length (ljust w s) = w"
  by (simp add: ljust_def)

lemma name_le_max_length:
  "m \<in> set (shown_decorators decos) \<Longrightarrow> length (name (descriptor m)) \<le> max_length decos"
  by (simp add: max_length_def)

lemma matrix_length:
  "length (fst (matrix grd decos)) = length (shown_decorators decos)"
  by (simp add: matrix_def Let_def outer_loop_length)

lemma matrix_row:
  assumes "r < length (shown_decorators decos)"
  shows "fst (matrix grd decos) ! r =
     ljust (max_length decos + 2) (name (descriptor (shown_decorators decos ! r)))
     @ map (\<lambda>c. symbol (shown_decorators decos)
                  (map (\<lambda>m. get_dependencies (descriptor m)) (shown_decorators decos))
                  (map (\<lambda>m. grd (descriptor m) (map descriptor decos)) (shown_decorators decos))
                  c r)
         [0..<length (shown_decorators decos)]"
  using assms by (simp add: matrix_def Let_def outer_loop_lines)

lemma matrix_empty_cells:
  "snd (matrix grd decos) =
     sum_list (map (\<lambda>c. length (filter (\<lambda>r. symbol (shown_decorators decos)
                  (map (\<lambda>m. get_dependencies (descriptor m)) (shown_decorators decos))
                  (map (\<lambda>m. grd (descriptor m) (map descriptor decos)) (shown_decorators decos))
                  c r = CHR '' '') [0..<length (shown_decorators decos)]))
         [0..<length (shown_decorators decos)])"
  by (simp add: matrix_def Let_def outer_loop_empty)

lemma matrix_prefix_length:
  assumes "r < length (shown_decorators decos)"
  shows "length (ljust (max_length decos + 2) (name (descriptor (shown_decorators decos ! r))))
         = max_length decos + 2"
proof -
  have "shown_decorators decos ! r \<in> set (shown_decorators decos)"
    using assms by simp
  then have "length (name (descriptor (shown_decorators decos ! r))) \<le> max_length decos + 2"
    using name_le_max_length [of "shown_decorators decos ! r" decos] by simp
  then show ?thesis by (rule length_ljust)
qed

lemma matrix_cell_symbol:
  assumes "r < length (shown_decorators decos)" and "c < length (shown_decorators decos)"
  shows "cell decos (fst (matrix grd decos)) r c =
     symbol (shown_decorators decos)
       (map (\<lambda>m. get_dependencies (descriptor m)) (shown_decorators decos))
       (map (\<lambda>m. grd (descriptor m) (map descriptor decos)) (shown_decorators decos)) c r"
proof -
  let ?p = "ljust (max_length decos + 2) (name (descriptor (shown_decorators decos ! r)))"
  let ?cells = "map (\<lambda>c. symbol (shown_decorators decos)
                  (map (\<lambda>m. get_dependencies (descriptor m)) (shown_decorators decos))
                  (map (\<lambda>m. grd (descriptor m) (map descriptor decos)) (shown_decorators decos))
                  c r)
         [0..<length (shown_decorators decos)]"
  have len: "length ?p = max_length decos + 2"
    using assms(1) by (rule matrix_prefix_length)
  have "cell decos (fst (matrix grd decos)) r c = (?p @ ?cells) ! (length ?p + c)"
    using assms(1) by (simp only: cell_def matrix_row len)
  also have "\<dots> = ?cells ! c"
    by (rule nth_append_length_plus)
  also have "\<dots> = symbol (shown_decorators decos)
                  (map (\<lambda>m. get_dependencies (descriptor m)) (shown_decorators decos))
                  (map (\<lambda>m. grd (descriptor m) (map descriptor decos)) (shown_decorators decos))
                  c r"
    using assms(2) by simp
  finally show ?thesis .
qed

lemma symbol_shown:
  assumes "r < length sh" and "c < length sh"
  shows "symbol sh (map (\<lambda>m. get_dependencies (descriptor m)) sh)
           (map (\<lambda>m. grd (descriptor m) ds) sh) c r =
     (if r = c then CHR ''+''
      else if name (descriptor (sh ! r)) \<in> set (get_dependencies (descriptor (sh ! c)))
        then CHR ''*''
      else if name (descriptor (sh ! r)) \<in> set (grd (descriptor (sh ! c)) ds)
        then CHR ''.''
      else CHR '' '')"
  using assms by (simp add: symbol_def)

lemma count_pairs:
  fixes P :: "nat \<Rightarrow> nat \<Rightarrow> bool"
  shows "sum_list (map (\<lambda>c. length (filter (\<lambda>r. P r c) [0..<n])) [0..<n]) =
         card {(r, c). r < n \<and> c < n \<and> P r c}"
proof -
  have len: "length (filter (\<lambda>r. P r c) [0..<n]) = card {r. r < n \<and> P r c}" for c
  proof -
    have "{i. i < n \<and> P ([0..<n] ! i) c} = {r. r < n \<and> P r c}"
      by auto
    then show ?thesis
      by (simp add: length_filter_conv_card)
  qed
  have "{(r, c). r < n \<and> c < n \<and> P r c} =
        (\<lambda>(c, r). (r, c)) ` (SIGMA c:{..<n}. {r. r < n \<and> P r c})"
    by (auto simp: image_iff)
  moreover have "inj_on (\<lambda>(c, r). (r, c)) (SIGMA c:{..<n}. {r. r < n \<and> P r c})"
    by (auto simp: inj_on_def)
  ultimately have "card {(r, c). r < n \<and> c < n \<and> P r c} =
        card (SIGMA c:{..<n}. {r. r < n \<and> P r c})"
    by (simp add: card_image)
  also have "\<dots> = (\<Sum>c<n. card {r. r < n \<and> P r c})"
    by (subst card_SigmaI) simp_all
  also have "\<dots> = sum_list (map (\<lambda>c. card {r. r < n \<and> P r c}) [0..<n])"
    by (simp add: interv_sum_list_conv_sum_set_nat atLeast0LessThan)
  finally show ?thesis by (simp add: len)
qed

lemma filter_upt_less:
  assumes "i < n" and "\<not> P i"
  shows "length (filter P [0..<n]) \<le> n - 1"
proof -
  have "length (filter P [0..<n]) < length [0..<n]"
    using assms by (intro length_filter_less [of i]) simp_all
  then show ?thesis by simp
qed

lemma matrix_empty_cells_le:
  "snd (matrix grd decos) \<le>
     length (shown_decorators decos) * (length (shown_decorators decos) - 1)"
proof -
  let ?n = "length (shown_decorators decos)"
  let ?sym = "symbol (shown_decorators decos)
                  (map (\<lambda>m. get_dependencies (descriptor m)) (shown_decorators decos))
                  (map (\<lambda>m. grd (descriptor m) (map descriptor decos)) (shown_decorators decos))"
  have "sum_list (map (\<lambda>c. length (filter (\<lambda>r. ?sym c r = CHR '' '') [0..<?n])) [0..<?n])
        \<le> sum_list (map (\<lambda>c. ?n - 1) [0..<?n])"
  proof (rule sum_list_mono)
    fix c assume "c \<in> set [0..<?n]"
    then have "c < ?n" by simp
    moreover have "\<not> ?sym c c = CHR '' ''" by (simp add: symbol_def)
    ultimately show "length (filter (\<lambda>r. ?sym c r = CHR '' '') [0..<?n]) \<le> ?n - 1"
      by (rule filter_upt_less)
  qed
  also have "\<dots> = ?n * (?n - 1)"
    by (simp add: sum_list_triv)
  finally show ?thesis by (simp add: matrix_empty_cells)
qed

section \<open>Dictionaries of sets\<close>


lemma set_set_add: "set (set_add v vs) = insert v (set vs)"
  by (auto simp: set_add_def)

lemma distinct_set_add: "distinct vs \<Longrightarrow> distinct (set_add v vs)"
  by (simp add: set_add_def)

lemma dd_get_Nil: "dd_get k [] = []"
  by (simp add: dd_get_def)

lemma dd_get_dd_add:
  "dd_get k' (dd_add k v m) = (if k' = k then set_add v (dd_get k m) else dd_get k' m)"
  by (induction m) (auto simp: dd_get_def set_add_def)

lemma keys_dd_add: "keys (dd_add k v m) = insert k (keys m)"
  by (induction k v m rule: dd_add.induct) (force simp: keys_def)+

lemma entries_Nil: "entries [] = {}"
  by (simp add: entries_def dd_get_Nil)

lemma entries_dd_add: "entries (dd_add k v m) = insert (k, v) (entries m)"
  by (auto simp: entries_def dd_get_dd_add set_set_add split: if_splits)

lemma mem_entries: "(k, v) \<in> entries m \<longleftrightarrow> v \<in> set (dd_get k m)"
  by (simp add: entries_def)

lemma filled_Nil: "filled []"
  by (simp add: filled_def keys_def entries_Nil)

lemma filled_dd_add: "filled m \<Longrightarrow> filled (dd_add k v m)"
  by (simp add: filled_def keys_dd_add entries_dd_add)

lemma fold_entries:
  assumes "\<And>x m. x \<in> set xs \<Longrightarrow> entries (step x m) = entries m \<union> S x"
  shows "entries (fold step xs m) = entries m \<union> (\<Union>x\<in>set xs. S x)"
  using assms
proof (induction xs arbitrary: m)
  case Nil
  then show ?case by simp
next
  case (Cons x xs)
  have "entries (fold step xs (step x m)) = entries (step x m) \<union> (\<Union>x\<in>set xs. S x)"
    by (rule Cons.IH) (simp add: Cons.prems)
  then show ?case
    by (simp add: Cons.prems Un_assoc)
qed

lemma fold_filled:
  assumes "\<And>x m. x \<in> set xs \<Longrightarrow> filled m \<Longrightarrow> filled (step x m)" and "filled m"
  shows "filled (fold step xs m)"
  using assms by (induction xs arbitrary: m) simp_all

subsection \<open>decorators by name\<close>

lemma entries_decorators_by_name:
  "entries (decorators_by_name decos) = {(name (descriptor deco), deco) | deco. deco \<in> set decos}"
proof -
  have "entries (decorators_by_name decos) =
        entries [] \<union> (\<Union>deco\<in>set decos. {(name (descriptor deco), deco)})"
    unfolding decorators_by_name_def
    by (rule fold_entries) (simp add: entries_dd_add)
  then show ?thesis by (auto simp: entries_Nil)
qed

lemma filled_decorators_by_name: "filled (decorators_by_name decos)"
  unfolding decorators_by_name_def
  by (rule fold_filled) (simp_all add: filled_dd_add filled_Nil)

lemma set_decorators_by_name:
  "set (dd_get n (decorators_by_name decos)) = {deco \<in> set decos. name (descriptor deco) = n}"
proof -
  have "deco \<in> set (dd_get n (decorators_by_name decos)) \<longleftrightarrow>
        deco \<in> set decos \<and> name (descriptor deco) = n" for deco
    using mem_entries [of n deco "decorators_by_name decos"]
    by (auto simp: entries_decorators_by_name)
  then show ?thesis by blast
qed

lemma keys_decorators_by_name:
  "keys (decorators_by_name decos) = (\<lambda>deco. name (descriptor deco)) ` set decos"
  using filled_decorators_by_name [of decos]
  by (auto simp: filled_def entries_decorators_by_name image_iff)

subsection \<open>direct edges\<close>

lemma entries_direct_edges:
  "entries (direct_edges decos) =
     {((descriptor deco, dep), category) | deco dep category deps.
        deco \<in> set decos \<and> selected deco \<and> (category, deps) \<in> set (dependencies (descriptor deco))
        \<and> dep \<in> set deps \<and> dep \<in> set (selected_pkg_names decos)}"
proof -
  let ?sel = "set (selected_pkg_names decos)"
  have dep_loop: "entries (fold (\<lambda>dep edges.
                  if dep \<notin> ?sel then edges
                  else dd_add (d, dep) category edges) deps m) =
        entries m \<union> (\<Union>dep\<in>set deps. if dep \<in> ?sel then {((d, dep), category)} else {})"
    for d category deps and m :: "((descriptor \<times> string) \<times> string list) list"
    by (rule fold_entries) (simp add: entries_dd_add)
  have cat_loop: "entries (fold (\<lambda>(category, deps) edges.
               fold (\<lambda>dep edges.
                  if dep \<notin> ?sel then edges
                  else dd_add (d, dep) category edges)
                 deps edges) items m) =
        entries m \<union> (\<Union>(category, deps)\<in>set items.
           \<Union>dep\<in>set deps. if dep \<in> ?sel then {((d, dep), category)} else {})"
    for d items and m :: "((descriptor \<times> string) \<times> string list) list"
    by (rule fold_entries) (auto simp: dep_loop)
  have "entries (direct_edges decos) = entries [] \<union> (\<Union>deco\<in>set (rev decos).
      if selected deco then (\<Union>(category, deps)\<in>set (dependencies (descriptor deco)).
           \<Union>dep\<in>set deps. if dep \<in> ?sel then {((descriptor deco, dep), category)} else {})
      else {})"
    unfolding direct_edges_def
    by (rule fold_entries) (simp add: cat_loop)
  then show ?thesis
    by (auto simp: entries_Nil split: if_splits)
qed

lemma filled_direct_edges: "filled (direct_edges decos)"
  unfolding direct_edges_def
  by (intro fold_filled filled_Nil)
     (auto intro!: fold_filled filled_dd_add split: if_splits)


subsection \<open>indirect edges\<close>


lemma keys_filled: "filled m \<Longrightarrow> k \<in> keys m \<longleftrightarrow> (\<exists>v. (k, v) \<in> entries m)"
  by (force simp: filled_def)

lemma rdep_loop_entries:
  "entries (fold (\<lambda>rdep edges.
              if rdep \<notin> sel then edges
              else if (d, rdep) \<in> direct then edges
              else dd_add (d, rdep) category edges) rdeps m) =
   entries m \<union> {((d, rdep), category) | rdep.
                   rdep \<in> set rdeps \<and> rdep \<in> sel \<and> (d, rdep) \<notin> direct}"
proof -
  have "entries (fold (\<lambda>rdep edges.
              if rdep \<notin> sel then edges
              else if (d, rdep) \<in> direct then edges
              else dd_add (d, rdep) category edges) rdeps m) =
        entries m \<union> (\<Union>rdep\<in>set rdeps.
           if rdep \<in> sel \<and> (d, rdep) \<notin> direct then {((d, rdep), category)} else {})"
    by (rule fold_entries) (simp add: entries_dd_add)
  also have "(\<Union>rdep\<in>set rdeps.
           if rdep \<in> sel \<and> (d, rdep) \<notin> direct then {((d, rdep), category)} else {}) =
      {((d, rdep), category) | rdep. rdep \<in> set rdeps \<and> rdep \<in> sel \<and> (d, rdep) \<notin> direct}"
    by (auto split: if_splits)
  finally show ?thesis .
qed

lemma dep_loop_entries:
  "entries (fold (\<lambda>dep edges.
              if dep \<in> sel then edges
              else if dep \<notin> known then edges
              else fold (\<lambda>rdep edges.
                     if rdep \<notin> sel then edges
                     else if (d, rdep) \<in> direct then edges
                     else dd_add (d, rdep) category edges) (rd dep) edges) deps m) =
   entries m \<union> {((d, rdep), category) | dep rdep.
                   dep \<in> set deps \<and> dep \<notin> sel \<and> dep \<in> known \<and>
                   rdep \<in> set (rd dep) \<and> rdep \<in> sel \<and> (d, rdep) \<notin> direct}"
proof -
  have "entries (fold (\<lambda>dep edges.
              if dep \<in> sel then edges
              else if dep \<notin> known then edges
              else fold (\<lambda>rdep edges.
                     if rdep \<notin> sel then edges
                     else if (d, rdep) \<in> direct then edges
                     else dd_add (d, rdep) category edges) (rd dep) edges) deps m) =
        entries m \<union> (\<Union>dep\<in>set deps.
           if dep \<notin> sel \<and> dep \<in> known
           then {((d, rdep), category) | rdep.
                   rdep \<in> set (rd dep) \<and> rdep \<in> sel \<and> (d, rdep) \<notin> direct}
           else {})"
    by (rule fold_entries) (simp add: rdep_loop_entries)
  also have "(\<Union>dep\<in>set deps.
           if dep \<notin> sel \<and> dep \<in> known
           then {((d, rdep), category) | rdep.
                   rdep \<in> set (rd dep) \<and> rdep \<in> sel \<and> (d, rdep) \<notin> direct}
           else {}) =
      {((d, rdep), category) | dep rdep.
                   dep \<in> set deps \<and> dep \<notin> sel \<and> dep \<in> known \<and>
                   rdep \<in> set (rd dep) \<and> rdep \<in> sel \<and> (d, rdep) \<notin> direct}"
    by (auto split: if_splits)
  finally show ?thesis .
qed

lemma category_loop_entries:
  "entries (fold (\<lambda>(category, deps) edges.
              fold (\<lambda>dep edges.
                 if dep \<in> sel then edges
                 else if dep \<notin> known then edges
                 else fold (\<lambda>rdep edges.
                        if rdep \<notin> sel then edges
                        else if (d, rdep) \<in> direct then edges
                        else dd_add (d, rdep) category edges) (rd dep) edges) deps edges)
            items m) =
   entries m \<union> {((d, rdep), category) | category deps dep rdep.
                   (category, deps) \<in> set items \<and>
                   dep \<in> set deps \<and> dep \<notin> sel \<and> dep \<in> known \<and>
                   rdep \<in> set (rd dep) \<and> rdep \<in> sel \<and> (d, rdep) \<notin> direct}"
proof -
  have "entries (fold (\<lambda>(category, deps) edges.
              fold (\<lambda>dep edges.
                 if dep \<in> sel then edges
                 else if dep \<notin> known then edges
                 else fold (\<lambda>rdep edges.
                        if rdep \<notin> sel then edges
                        else if (d, rdep) \<in> direct then edges
                        else dd_add (d, rdep) category edges) (rd dep) edges) deps edges)
            items m) =
        entries m \<union> (\<Union>item\<in>set items.
           {((d, rdep), fst item) | dep rdep.
                   dep \<in> set (snd item) \<and> dep \<notin> sel \<and> dep \<in> known \<and>
                   rdep \<in> set (rd dep) \<and> rdep \<in> sel \<and> (d, rdep) \<notin> direct})"
    by (rule fold_entries) (simp add: dep_loop_entries split: prod.splits)
  also have "(\<Union>item\<in>set items.
           {((d, rdep), fst item) | dep rdep.
                   dep \<in> set (snd item) \<and> dep \<notin> sel \<and> dep \<in> known \<and>
                   rdep \<in> set (rd dep) \<and> rdep \<in> sel \<and> (d, rdep) \<notin> direct}) =
      {((d, rdep), category) | category deps dep rdep.
                   (category, deps) \<in> set items \<and>
                   dep \<in> set deps \<and> dep \<notin> sel \<and> dep \<in> known \<and>
                   rdep \<in> set (rd dep) \<and> rdep \<in> sel \<and> (d, rdep) \<notin> direct}"
    by force
  finally show ?thesis .
qed

lemma rdep_of_name:
  "rdep \<in> set (concat (map recursive_dependencies (dd_get dep (decorators_by_name decos)))) \<longleftrightarrow>
   (\<exists>other\<in>set decos. name (descriptor other) = dep \<and> rdep \<in> set (recursive_dependencies other))"
  by (auto simp: set_decorators_by_name)

lemma known_rdep:
  "dep \<in> keys (decorators_by_name decos) \<and>
   rdep \<in> set (concat (map recursive_dependencies (dd_get dep (decorators_by_name decos)))) \<longleftrightarrow>
   (\<exists>other\<in>set decos. name (descriptor other) = dep \<and> rdep \<in> set (recursive_dependencies other))"
  unfolding rdep_of_name keys_decorators_by_name by blast

lemma decorator_loop_entries:
  "entries (indirect_edges decos) =
     (\<Union>deco\<in>set decos. if selected deco
      then {((descriptor deco, rdep), category) | category deps dep rdep.
                   (category, deps) \<in> set (dependencies (descriptor deco)) \<and>
                   dep \<in> set deps \<and> dep \<notin> set (selected_pkg_names decos) \<and>
                   dep \<in> keys (decorators_by_name decos) \<and>
                   rdep \<in> set (concat (map recursive_dependencies
                                          (dd_get dep (decorators_by_name decos)))) \<and>
                   rdep \<in> set (selected_pkg_names decos) \<and>
                   (descriptor deco, rdep) \<notin> keys (direct_edges decos)}
      else {})"
proof -
  have "entries (indirect_edges decos) = entries [] \<union> (\<Union>deco\<in>set (rev decos). if selected deco
      then {((descriptor deco, rdep), category) | category deps dep rdep.
                   (category, deps) \<in> set (dependencies (descriptor deco)) \<and>
                   dep \<in> set deps \<and> dep \<notin> set (selected_pkg_names decos) \<and>
                   dep \<in> keys (decorators_by_name decos) \<and>
                   rdep \<in> set (concat (map recursive_dependencies
                                          (dd_get dep (decorators_by_name decos)))) \<and>
                   rdep \<in> set (selected_pkg_names decos) \<and>
                   (descriptor deco, rdep) \<notin> keys (direct_edges decos)}
      else {})"
    unfolding indirect_edges_def
    by (rule fold_entries) (simp add: category_loop_entries)
  then show ?thesis
    by (simp only: entries_Nil Un_empty_left set_rev)
qed

lemma indirect_edge_iff:
  "category \<in> set (dd_get (d, rdep) (indirect_edges decos)) \<longleftrightarrow>
   (\<exists>deco\<in>set decos. selected deco \<and> descriptor deco = d \<and>
      rdep \<in> set (selected_pkg_names decos) \<and> (d, rdep) \<notin> keys (direct_edges decos) \<and>
      (\<exists>deps dep. (category, deps) \<in> set (dependencies d) \<and> dep \<in> set deps \<and>
         dep \<notin> set (selected_pkg_names decos) \<and>
         (\<exists>other\<in>set decos. name (descriptor other) = dep \<and>
            rdep \<in> set (recursive_dependencies other))))"
proof -
  have "category \<in> set (dd_get (d, rdep) (indirect_edges decos)) \<longleftrightarrow>
        ((d, rdep), category) \<in> entries (indirect_edges decos)"
    by (simp add: mem_entries)
  also have "\<dots> \<longleftrightarrow> (\<exists>deco\<in>set decos. selected deco \<and> descriptor deco = d \<and>
      (\<exists>deps dep. (category, deps) \<in> set (dependencies d) \<and> dep \<in> set deps \<and>
         dep \<notin> set (selected_pkg_names decos) \<and>
         (dep \<in> keys (decorators_by_name decos) \<and>
          rdep \<in> set (concat (map recursive_dependencies
                                 (dd_get dep (decorators_by_name decos))))) \<and>
         rdep \<in> set (selected_pkg_names decos) \<and> (d, rdep) \<notin> keys (direct_edges decos)))"
    unfolding decorator_loop_entries
    by (auto split: if_splits)
  also have "\<dots> \<longleftrightarrow> (\<exists>deco\<in>set decos. selected deco \<and> descriptor deco = d \<and>
      rdep \<in> set (selected_pkg_names decos) \<and> (d, rdep) \<notin> keys (direct_edges decos) \<and>
      (\<exists>deps dep. (category, deps) \<in> set (dependencies d) \<and> dep \<in> set deps \<and>
         dep \<notin> set (selected_pkg_names decos) \<and>
         (\<exists>other\<in>set decos. name (descriptor other) = dep \<and>
            rdep \<in> set (recursive_dependencies other))))"
    unfolding known_rdep by blast
  finally show ?thesis .
qed

lemma filled_indirect_edges: "filled (indirect_edges decos)"
  unfolding indirect_edges_def
  by (intro fold_filled filled_Nil)
     (auto intro!: fold_filled filled_dd_add split: if_splits)

lemma indirect_key_iff:
  "k \<in> keys (indirect_edges decos) \<longleftrightarrow> (\<exists>category. category \<in> set (dd_get k (indirect_edges decos)))"
  using keys_filled [OF filled_indirect_edges, of k decos] by (simp add: mem_entries)

lemma direct_key_iff:
  "k \<in> keys (direct_edges decos) \<longleftrightarrow> (\<exists>category. category \<in> set (dd_get k (direct_edges decos)))"
  using keys_filled [OF filled_direct_edges, of k decos] by (simp add: mem_entries)

lemma direct_indirect_disjoint:
  "keys (direct_edges decos) \<inter> keys (indirect_edges decos) = {}"
proof -
  have "k \<notin> keys (direct_edges decos)" if "k \<in> keys (indirect_edges decos)" for k
  proof -
    obtain d rdep where k: "k = (d, rdep)" by (cases k)
    have "\<exists>category. category \<in> set (dd_get k (indirect_edges decos))"
      using that by (rule iffD1 [OF indirect_key_iff])
    then obtain category where "category \<in> set (dd_get (d, rdep) (indirect_edges decos))"
      unfolding k by blast
    then have "(d, rdep) \<notin> keys (direct_edges decos)"
      unfolding indirect_edge_iff by blast
    then show ?thesis
      by (simp add: k)
  qed
  then show ?thesis by blast
qed

lemma direct_edge_iff:
  "category \<in> set (dd_get (d, dep) (direct_edges decos)) \<longleftrightarrow>
   (\<exists>deco\<in>set decos. selected deco \<and> descriptor deco = d \<and>
      dep \<in> set (selected_pkg_names decos) \<and>
      (\<exists>deps. (category, deps) \<in> set (dependencies d) \<and> dep \<in> set deps))"
proof -
  have "category \<in> set (dd_get (d, dep) (direct_edges decos)) \<longleftrightarrow>
        ((d, dep), category) \<in> entries (direct_edges decos)"
    by (simp add: mem_entries)
  also have "\<dots> \<longleftrightarrow> (\<exists>deco\<in>set decos. selected deco \<and> descriptor deco = d \<and>
      dep \<in> set (selected_pkg_names decos) \<and>
      (\<exists>deps. (category, deps) \<in> set (dependencies d) \<and> dep \<in> set deps))"
    unfolding entries_direct_edges by blast
  finally show ?thesis .
qed


section \<open>Node tokens\<close>


subsection \<open>decimal numbers\<close>

lemma digit_char_inj:
  assumes "d < 10" and "e < 10" and "digit_char d = digit_char e"
  shows "d = e"
proof -
  have "distinct ''0123456789''" by simp
  moreover have "d < length ''0123456789''" and "e < length ''0123456789''"
    using assms by simp_all
  ultimately show ?thesis
    using assms(3) unfolding digit_char_def by (simp only: nth_eq_iff_index_eq)
qed

lemma digit_char_in: "d < 10 \<Longrightarrow> digit_char d \<in> set ''0123456789''"
  unfolding digit_char_def by (rule nth_mem) simp

lemma str_nat_nonempty: "str_nat n \<noteq> []"
  by (subst str_nat.simps) simp

lemma str_nat_digits: "set (str_nat n) \<subseteq> set ''0123456789''"
proof (induction n rule: str_nat.induct)
  case (1 n)
  show ?case
  proof (cases "n < 10")
    case True
    then show ?thesis
      using digit_char_in [of n] by (subst str_nat.simps) simp
  next
    case False
    have "n mod 10 < 10" by simp
    then have "digit_char (n mod 10) \<in> set ''0123456789''"
      by (rule digit_char_in)
    with False 1 show ?thesis
      by (subst str_nat.simps) simp
  qed
qed

lemma underscore_notin_str_nat: "CHR ''_'' \<notin> set (str_nat n)"
  using str_nat_digits [of n] by auto

lemma str_nat_inj: "str_nat m = str_nat n \<Longrightarrow> m = n"
proof (induction m arbitrary: n rule: str_nat.induct)
  case (1 m)
  show ?case
  proof (cases "m < 10")
    case m: True
    show ?thesis
    proof (cases "n < 10")
      case True
      with m "1.prems" have "digit_char m = digit_char n"
        by (simp add: str_nat.simps [of m] str_nat.simps [of n])
      with m True show ?thesis by (rule digit_char_inj)
    next
      case False
      with m "1.prems" have "str_nat (n div 10) = []"
        by (simp add: str_nat.simps [of m] str_nat.simps [of n])
      then show ?thesis by (simp add: str_nat_nonempty)
    qed
  next
    case m: False
    show ?thesis
    proof (cases "n < 10")
      case True
      with m "1.prems" have "str_nat (m div 10) = []"
        by (simp add: str_nat.simps [of m] str_nat.simps [of n])
      then show ?thesis by (simp add: str_nat_nonempty)
    next
      case False
      with m "1.prems" have eq: "str_nat (m div 10) = str_nat (n div 10)"
        and dig: "digit_char (m mod 10) = digit_char (n mod 10)"
        by (simp_all add: str_nat.simps [of m] str_nat.simps [of n])
      have "m div 10 = n div 10"
        using m eq by (rule "1.IH")
      moreover have "m mod 10 = n mod 10"
        using dig by (intro digit_char_inj) simp_all
      ultimately show ?thesis
        by (metis div_mult_mod_eq)
    qed
  qed
qed

subsection \<open>tokens\<close>

lemma suffix_after_separator:
  assumes "c \<notin> set s" and "c \<notin> set t" and "a @ c # s = b @ c # t"
  shows "s = t"
proof -
  have "rev s @ c # rev a = rev t @ c # rev b"
    using arg_cong [OF assms(3), of rev] by simp
  then have "takeWhile (\<lambda>x. x \<noteq> c) (rev s @ c # rev a) = takeWhile (\<lambda>x. x \<noteq> c) (rev t @ c # rev b)"
    by simp
  moreover have "takeWhile (\<lambda>x. x \<noteq> c) (rev s @ c # rev a) = rev s"
    using assms(1) by (auto simp: takeWhile_tail)
  moreover have "takeWhile (\<lambda>x. x \<noteq> c) (rev t @ c # rev b) = rev t"
    using assms(2) by (auto simp: takeWhile_tail)
  ultimately show ?thesis by simp
qed

lemma has_duplicate_names_iff:
  "has_duplicate_names decos \<longleftrightarrow> \<not> distinct (selected_pkg_names decos)"
  unfolding has_duplicate_names_def
  using distinct_card card_distinct by metis

lemma suffixed_token_inj:
  assumes "fst (get_node_data True d) = fst (get_node_data True e)"
  shows "ident d = ident e"
proof -
  have "name d @ CHR ''_'' # str_nat (ident d) = name e @ CHR ''_'' # str_nat (ident e)"
    using assms by (simp add: get_node_data_def)
  then have "str_nat (ident d) = str_nat (ident e)"
    by (rule suffix_after_separator [OF underscore_notin_str_nat underscore_notin_str_nat])
  then show ?thesis by (rule str_nat_inj)
qed

lemma distinct_map_finer:
  assumes "distinct (map g xs)" and "\<And>x y. h x = h y \<Longrightarrow> g x = g y"
  shows "distinct (map h xs)"
proof -
  have "distinct xs" and "inj_on g (set xs)"
    using assms(1) by (simp_all add: distinct_map)
  then have "inj_on h (set xs)"
    using assms(2) by (metis inj_on_def)
  with \<open>distinct xs\<close> show ?thesis by (simp add: distinct_map)
qed

lemma distinct_tokens:
  assumes "distinct (map (\<lambda>m. ident (descriptor m)) (filter selected decos))"
  shows "distinct (map (\<lambda>m. fst (get_node_data (has_duplicate_names decos) (descriptor m)))
           (filter selected decos))"
proof (cases "has_duplicate_names decos")
  case True
  have "ident (descriptor x) = ident (descriptor y)"
    if "fst (get_node_data (has_duplicate_names decos) (descriptor x)) =
        fst (get_node_data (has_duplicate_names decos) (descriptor y))" for x y
    using that True by (intro suffixed_token_inj) simp
  with assms show ?thesis
    by (rule distinct_map_finer)
next
  case False
  then have "distinct (selected_pkg_names decos)"
    by (simp add: has_duplicate_names_iff)
  then show ?thesis
    using False by (simp add: get_node_data_def selected_pkg_names_def)
qed

section \<open>Nodes, paths and clusters\<close>

subsection \<open>the selected nodes\<close>

lemma keys_od_set: "keys (od_set k v m) = insert k (keys m)"
  by (induction k v m rule: od_set.induct) (force simp: keys_def)+

lemma distinct_od_set: "distinct (map fst m) \<Longrightarrow> distinct (map fst (od_set k v m))"
proof (induction k v m rule: od_set.induct)
  case (1 k v)
  then show ?case by simp
next
  case (2 k v k' v' m)
  have "fst ` set (od_set k v m) = insert k (fst ` set m)"
    using keys_od_set [of k v m] by (simp add: keys_def)
  with 2 show ?case by auto
qed

lemma od_set_values:
  "\<forall>(k', v')\<in>set m. v' = f k' \<Longrightarrow> \<forall>(k', v')\<in>set (od_set k (f k) m). v' = f k'"
  by (induction k "f k" m rule: od_set.induct) auto

lemma node_inv_nodes: "node_inv (nodes decos)"
  unfolding nodes_def
proof (rule fold_invariant)
  show "node_inv []" by (simp add: node_inv_def)
next
  fix deco and m :: "(descriptor \<times> py_path) list"
  assume "node_inv m"
  then show "node_inv (if \<not> selected deco then m
              else od_set (descriptor deco) (parent (path (descriptor deco))) m)"
    using od_set_values [of m "\<lambda>d. parent (path d)" "descriptor deco"]
    by (simp add: node_inv_def distinct_od_set)
qed

lemma keys_fold_nodes:
  "keys (fold (\<lambda>deco m. if \<not> selected deco then m
                 else od_set (descriptor deco) (parent (path (descriptor deco))) m) xs m0) =
   keys m0 \<union> {descriptor deco | deco. deco \<in> set xs \<and> selected deco}"
  by (induction xs arbitrary: m0) (auto simp: keys_od_set)

lemma keys_nodes: "keys (nodes decos) = {descriptor deco | deco. deco \<in> set decos \<and> selected deco}"
proof -
  have "keys (nodes decos) = keys ([] :: (descriptor \<times> py_path) list)
        \<union> {descriptor deco | deco. deco \<in> set (rev decos) \<and> selected deco}"
    unfolding nodes_def by (rule keys_fold_nodes)
  then show ?thesis by (simp add: keys_def)
qed

lemma distinct_nodes: "distinct (map fst (nodes decos))"
  using node_inv_nodes [of decos] by (simp add: node_inv_def)

lemma nodes_parent: "(d, p) \<in> set (nodes decos) \<Longrightarrow> p = parent (path d)"
  using node_inv_nodes [of decos] by (auto simp: node_inv_def)

lemma set_nodes:
  "set (nodes decos) =
     {(descriptor deco, parent (path (descriptor deco))) | deco. deco \<in> set decos \<and> selected deco}"
proof -
  have "x \<in> set (nodes decos) \<longleftrightarrow>
        (\<exists>deco. x = (descriptor deco, parent (path (descriptor deco))) \<and> deco \<in> set decos \<and> selected deco)"
    for x
  proof (cases x)
    case (Pair d p)
    have "d \<in> keys (nodes decos) \<longleftrightarrow> (\<exists>deco. d = descriptor deco \<and> deco \<in> set decos \<and> selected deco)"
      by (auto simp: keys_nodes)
    moreover have "(d, p) \<in> set (nodes decos) \<longleftrightarrow> d \<in> keys (nodes decos) \<and> p = parent (path d)"
      using nodes_parent [of _ _ decos] by (force simp: keys_def)
    ultimately show ?thesis
      unfolding Pair by auto
  qed
  then show ?thesis by blast
qed

subsection \<open>nothing selected\<close>

lemma no_selection_nodes: "\<forall>m\<in>set decos. \<not> selected m \<Longrightarrow> nodes decos = []"
  unfolding nodes_def by (rule fold_skip) simp

lemma no_selection_direct: "\<forall>m\<in>set decos. \<not> selected m \<Longrightarrow> direct_edges decos = []"
  unfolding direct_edges_def by (rule fold_skip) simp

lemma no_selection_indirect: "\<forall>m\<in>set decos. \<not> selected m \<Longrightarrow> indirect_edges decos = []"
  unfolding indirect_edges_def by (rule fold_skip) simp

lemma no_selection_shown: "\<forall>m\<in>set decos. \<not> selected m \<Longrightarrow> shown_decorators decos = []"
  by (simp add: shown_decorators_def)

lemma no_selection_matrix:
  "\<forall>m\<in>set decos. \<not> selected m \<Longrightarrow> matrix grd decos = ([], 0)"
  by (simp add: matrix_def no_selection_shown)

lemma no_selection_dot:
  assumes "\<forall>m\<in>set decos. \<not> selected m"
  shows "render_dot cl decos = Inr [''digraph graphname {'', ''}'']"
proof -
  have "common_path decos = None"
    by (simp add: common_path_def commonpath_def no_selection_nodes [OF assms])
  moreover have "output_nodes decos = []"
    by (simp add: output_nodes_def no_selection_nodes [OF assms])
  ultimately show ?thesis
    by (simp add: render_dot_def edge_lines_def
        no_selection_direct [OF assms] no_selection_indirect [OF assms])
qed

subsection \<open>the common path\<close>

lemma common_prefix_fold:
  "prefix (fold (\<lambda>q c. longest_common_prefix c (parts q)) qs c0) c0
   \<and> (\<forall>q\<in>set qs. prefix (fold (\<lambda>q c. longest_common_prefix c (parts q)) qs c0) (parts q))"
proof (induction qs arbitrary: c0)
  case Nil
  then show ?case by simp
next
  case (Cons q qs)
  let ?c1 = "longest_common_prefix c0 (parts q)"
  let ?r = "fold (\<lambda>q c. longest_common_prefix c (parts q)) qs ?c1"
  have r: "prefix ?r ?c1" and rest: "\<forall>q\<in>set qs. prefix ?r (parts q)"
    using Cons.IH [of ?c1] by simp_all
  have "prefix ?r c0"
    using r longest_common_prefix_prefix1 [of c0 "parts q"] by (rule prefix_order.trans)
  moreover have "prefix ?r (parts q)"
    using r longest_common_prefix_prefix2 [of c0 "parts q"] by (rule prefix_order.trans)
  ultimately show ?case
    using rest by simp
qed

lemma commonpath_prefix:
  assumes "commonpath ps = Inr c" and "p \<in> set ps"
  shows "anchor c = (if is_absolute p then Root else Relative) \<and> prefix (parts c) (parts p)"
proof (cases ps)
  case Nil
  with assms show ?thesis by simp
next
  case (Cons p0 qs)
  have ok: "\<not> list_ex (\<lambda>q. is_absolute q \<noteq> is_absolute p0) qs"
    using assms(1) by (auto simp: commonpath_def Cons split: if_splits)
  then have c: "c = \<lparr>anchor = (if is_absolute p0 then Root else Relative),
                    parts = fold (\<lambda>q c. longest_common_prefix c (parts q)) qs (parts p0)\<rparr>"
    using assms(1) by (simp add: commonpath_def Cons)
  have "is_absolute p = is_absolute p0"
    using ok assms(2) by (auto simp: Cons list_ex_iff)
  moreover have "prefix (fold (\<lambda>q c. longest_common_prefix c (parts q)) qs (parts p0)) (parts p)"
    using common_prefix_fold [of qs "parts p0"] assms(2) by (auto simp: Cons)
  ultimately show ?thesis
    by (simp add: c)
qed

lemma relative_to_common:
  assumes "commonpath ps = Inr c" and "p \<in> set ps"
  shows "relative_to p c =
     (if anchor p = DoubleRoot then Inl ValueError
      else Inr \<lparr>anchor = Relative, parts = drop (length (parts c)) (parts p)\<rparr>)"
  using commonpath_prefix [OF assms]
  by (cases "anchor p") (simp_all add: relative_to_def is_absolute_def)

lemma anchor_parent: "anchor (parent p) = anchor p"
  by (simp add: parent_def)

subsection \<open>clusters\<close>

lemma distinct_keys_dd_add: "distinct (map fst m) \<Longrightarrow> distinct (map fst (dd_add k v m))"
proof (induction k v m rule: dd_add.induct)
  case (1 k v)
  then show ?case by simp
next
  case (2 k v k' vs m)
  have "fst ` set (dd_add k v m) = insert k (fst ` set m)"
    using keys_dd_add [of k v m] by (simp add: keys_def)
  with 2 show ?case by auto
qed

lemma cluster_nodes_ok:
  assumes "\<forall>(d, p)\<in>set ns. \<exists>rel. relative_to p c = Inr rel"
  shows "\<exists>clusters. cluster_nodes c ns m = Inr clusters
           \<and> entries clusters = entries m \<union> {(rel, d) | rel d p. (d, p) \<in> set ns \<and> relative_to p c = Inr rel}
           \<and> (filled m \<longrightarrow> filled clusters)
           \<and> (distinct (map fst m) \<longrightarrow> distinct (map fst clusters))"
  using assms
proof (induction ns arbitrary: m)
  case Nil
  then show ?case by simp
next
  case (Cons n ns)
  obtain d p where n: "n = (d, p)" by (cases n)
  obtain rel where rel: "relative_to p c = Inr rel"
    using Cons.prems by (auto simp: n)
  have "\<forall>(d, p)\<in>set ns. \<exists>rel. relative_to p c = Inr rel"
    using Cons.prems by simp
  from Cons.IH [OF this, of "dd_add rel d m"]
  obtain clusters where cl: "cluster_nodes c ns (dd_add rel d m) = Inr clusters"
    and en: "entries clusters = entries (dd_add rel d m)
             \<union> {(rel, d) | rel d p. (d, p) \<in> set ns \<and> relative_to p c = Inr rel}"
    and fi: "filled (dd_add rel d m) \<longrightarrow> filled clusters"
    and di: "distinct (map fst (dd_add rel d m)) \<longrightarrow> distinct (map fst clusters)"
    by blast
  have "cluster_nodes c (n # ns) m = Inr clusters"
    by (simp add: n rel cl)
  moreover have "entries clusters = entries m
      \<union> {(rel, d) | rel d p. (d, p) \<in> set (n # ns) \<and> relative_to p c = Inr rel}"
    unfolding en entries_dd_add n using rel by auto
  moreover have "filled m \<longrightarrow> filled clusters"
    using fi by (simp add: filled_dd_add)
  moreover have "distinct (map fst m) \<longrightarrow> distinct (map fst clusters)"
    using di by (simp add: distinct_keys_dd_add)
  ultimately show ?case by blast
qed

lemma cluster_nodes_raises:
  assumes "(d, p) \<in> set ns" and "relative_to p c = Inl ValueError"
  shows "cluster_nodes c ns m = Inl ValueError"
  using assms
proof (induction ns arbitrary: m)
  case Nil
  then show ?case by simp
next
  case (Cons n ns)
  obtain d' p' where n: "n = (d', p')" by (cases n)
  show ?case
  proof (cases "relative_to p' c")
    case (Inl e)
    then show ?thesis by (cases e) (simp add: n)
  next
    case (Inr rel)
    with Cons.prems have "(d, p) \<in> set ns" by (auto simp: n)
    then have "cluster_nodes c ns (dd_add rel d' m) = Inl ValueError"
      using Cons.prems(2) by (rule Cons.IH)
    then show ?thesis by (simp add: n Inr)
  qed
qed

lemma common_path_Some:
  "common_path decos = Some c \<Longrightarrow> commonpath (map snd (nodes decos)) = Inr c"
  by (auto simp: common_path_def split: sum.splits py_error.splits)

lemma double_rooted_iff:
  "double_rooted decos \<longleftrightarrow>
   (\<exists>deco\<in>set decos. selected deco \<and> anchor (path (descriptor deco)) = DoubleRoot)"
  by (simp add: double_rooted_def list_ex_iff)

lemma node_relative_to:
  assumes "common_path decos = Some c" and "deco \<in> set decos" and "selected deco"
  shows "relative_to (parent (path (descriptor deco))) c =
     (if anchor (path (descriptor deco)) = DoubleRoot then Inl ValueError
      else Inr \<lparr>anchor = Relative,
                parts = drop (length (parts c)) (parts (parent (path (descriptor deco))))\<rparr>)"
proof -
  have "(descriptor deco, parent (path (descriptor deco))) \<in> set (nodes decos)"
    using assms(2,3) unfolding set_nodes by blast
  then have "parent (path (descriptor deco)) \<in> set (map snd (nodes decos))"
    by force
  with common_path_Some [OF assms(1)] show ?thesis
    using relative_to_common [of "map snd (nodes decos)" c "parent (path (descriptor deco))"]
    by (simp add: anchor_parent)
qed

lemma clusters_of_nodes:
  assumes "common_path decos = Some c" and "\<not> double_rooted decos"
  shows "\<exists>clusters. cluster_nodes c (nodes decos) [] = Inr clusters
     \<and> distinct (map fst clusters)
     \<and> filled clusters
     \<and> entries clusters =
         {(rel, descriptor deco) | rel deco. deco \<in> set decos \<and> selected deco
            \<and> relative_to (parent (path (descriptor deco))) c = Inr rel}"
proof -
  have "\<forall>(d, p)\<in>set (nodes decos). \<exists>rel. relative_to p c = Inr rel"
  proof (clarify)
    fix d p assume "(d, p) \<in> set (nodes decos)"
    then obtain deco where deco: "deco \<in> set decos" "selected deco"
      and d: "d = descriptor deco" and p: "p = parent (path (descriptor deco))"
      unfolding set_nodes by blast
    have "anchor (path (descriptor deco)) \<noteq> DoubleRoot"
      using assms(2) deco by (auto simp: double_rooted_iff)
    then show "\<exists>rel. relative_to p c = Inr rel"
      using node_relative_to [OF assms(1) deco] by (simp add: p)
  qed
  from cluster_nodes_ok [OF this, of "[]"]
  obtain clusters where cl: "cluster_nodes c (nodes decos) [] = Inr clusters"
    and en: "entries clusters = entries []
             \<union> {(rel, d) | rel d p. (d, p) \<in> set (nodes decos) \<and> relative_to p c = Inr rel}"
    and fi: "filled clusters" and di: "distinct (map fst clusters)"
    by (auto simp: filled_Nil)
  have "entries clusters =
         {(rel, descriptor deco) | rel deco. deco \<in> set decos \<and> selected deco
            \<and> relative_to (parent (path (descriptor deco))) c = Inr rel}"
    unfolding en entries_Nil set_nodes by auto
  with cl fi di show ?thesis by blast
qed

lemma clusters_raise:
  assumes "common_path decos = Some c" and "double_rooted decos"
  shows "cluster_nodes c (nodes decos) [] = Inl ValueError"
proof -
  obtain deco where deco: "deco \<in> set decos" "selected deco"
    and dr: "anchor (path (descriptor deco)) = DoubleRoot"
    using assms(2) by (auto simp: double_rooted_iff)
  have "(descriptor deco, parent (path (descriptor deco))) \<in> set (nodes decos)"
    using deco unfolding set_nodes by blast
  moreover have "relative_to (parent (path (descriptor deco))) c = Inl ValueError"
    using node_relative_to [OF assms(1) deco] dr by simp
  ultimately show ?thesis by (rule cluster_nodes_raises)
qed

lemma render_dot_raises:
  assumes "cl" and "common_path decos \<noteq> None" and "double_rooted decos"
  shows "render_dot cl decos = Inl ValueError"
proof -
  obtain c where c: "common_path decos = Some c"
    using assms(2) by blast
  have "cluster_nodes c (nodes decos) [] = Inl ValueError"
    using c assms(3) by (rule clusters_raise)
  then show ?thesis
    using assms(1) by (simp add: render_dot_def c output_clusters_def)
qed


section \<open>The lines of the graph\<close>

lemma set_edge_lines:
  "set (edge_lines decos style edges) =
     {edge_line (fst (get_node_data (has_duplicate_names decos) d))
        (fst (get_node_data (has_duplicate_names decos) (descriptor deco)))
        (colors categories) style
      | d t categories deco.
        ((d, t), categories) \<in> set edges \<and> deco \<in> set decos \<and> name (descriptor deco) = t}"
  unfolding edge_lines_def
  by (auto simp: set_decorators_by_name)


lemma set_output_nodes:
  "set (output_nodes decos) =
     node_line ''  '' (has_duplicate_names decos)
       ` {descriptor deco | deco. deco \<in> set decos \<and> selected deco}"
  unfolding output_nodes_def
  by (force simp: set_nodes image_iff)

section \<open>Claims about the ASCII matrix\<close>

text \<open>
  C2, as the code has it. The symbol in row \<open>r\<close>, column \<open>c\<close> tells what the package of the
  column needs from the package of the row: \<^verbatim>\<open>+\<close> on the diagonal; otherwise \<^verbatim>\<open>*\<close> when the
  name of the row's package is among the dependencies (of any category) of the column's
  package; otherwise \<^verbatim>\<open>.\<close> when it is in the recursive dependencies that colcon-core
  computes for the column's package; otherwise a space. The counter of empty cells is the
  number of cells that hold a space.
\<close>

theorem cell_of_matrix:
  "(\<forall>r < length (shown_decorators decos). \<forall>c < length (shown_decorators decos).
      cell decos (fst (matrix grd decos)) r c =
        (if c = r then CHR ''+''
         else if name (descriptor (shown_decorators decos ! r))
                 \<in> set (get_dependencies (descriptor (shown_decorators decos ! c)))
           then CHR ''*''
         else if name (descriptor (shown_decorators decos ! r))
                 \<in> set (grd (descriptor (shown_decorators decos ! c)) (map descriptor decos))
           then CHR ''.''
         else CHR '' ''))
   \<and> snd (matrix grd decos) =
       card {(r, c). r < length (shown_decorators decos) \<and> c < length (shown_decorators decos)
                     \<and> cell decos (fst (matrix grd decos)) r c = CHR '' ''}"
proof (intro conjI allI impI)
  fix r c
  assume "r < length (shown_decorators decos)" and "c < length (shown_decorators decos)"
  then show "cell decos (fst (matrix grd decos)) r c =
        (if c = r then CHR ''+''
         else if name (descriptor (shown_decorators decos ! r))
                 \<in> set (get_dependencies (descriptor (shown_decorators decos ! c)))
           then CHR ''*''
         else if name (descriptor (shown_decorators decos ! r))
                 \<in> set (grd (descriptor (shown_decorators decos ! c)) (map descriptor decos))
           then CHR ''.''
         else CHR '' '')"
    by (simp add: matrix_cell_symbol symbol_shown)
next
  let ?n = "length (shown_decorators decos)"
  let ?sym = "symbol (shown_decorators decos)
                  (map (\<lambda>m. get_dependencies (descriptor m)) (shown_decorators decos))
                  (map (\<lambda>m. grd (descriptor m) (map descriptor decos)) (shown_decorators decos))"
  have "{(r, c). r < ?n \<and> c < ?n \<and> cell decos (fst (matrix grd decos)) r c = CHR '' ''} =
        {(r, c). r < ?n \<and> c < ?n \<and> ?sym c r = CHR '' ''}"
    by (auto simp: matrix_cell_symbol)
  then show "snd (matrix grd decos) =
       card {(r, c). r < ?n \<and> c < ?n \<and> cell decos (fst (matrix grd decos)) r c = CHR '' ''}"
    by (simp only: matrix_empty_cells count_pairs)
qed

theorem cell_of_matrix_witness:
  "1 < length (shown_decorators ex_chain) \<and> 2 < length (shown_decorators ex_chain)
   \<and> cell ex_chain (fst (matrix (stored_closure ex_chain) ex_chain)) 1 2 = CHR ''*''"
proof -
  have r: "1 < length (shown_decorators ex_chain)"
    by code_simp
  have c: "2 < length (shown_decorators ex_chain)"
    by code_simp
  have "cell ex_chain (fst (matrix (stored_closure ex_chain) ex_chain)) 1 2 =
        (if (2::nat) = 1 then CHR ''+''
         else if name (descriptor (shown_decorators ex_chain ! 1))
                 \<in> set (get_dependencies (descriptor (shown_decorators ex_chain ! 2)))
           then CHR ''*''
         else if name (descriptor (shown_decorators ex_chain ! 1))
                 \<in> set (stored_closure ex_chain (descriptor (shown_decorators ex_chain ! 2))
                          (map descriptor ex_chain))
           then CHR ''.''
         else CHR '' '')"
    using cell_of_matrix [of ex_chain "stored_closure ex_chain"] r c by blast
  moreover have "(if (2::nat) = 1 then CHR ''+''
         else if name (descriptor (shown_decorators ex_chain ! 1))
                 \<in> set (get_dependencies (descriptor (shown_decorators ex_chain ! 2)))
           then CHR ''*''
         else if name (descriptor (shown_decorators ex_chain ! 1))
                 \<in> set (stored_closure ex_chain (descriptor (shown_decorators ex_chain ! 2))
                          (map descriptor ex_chain))
           then CHR ''.''
         else CHR '' '') = CHR ''*''"
    by code_simp
  ultimately show ?thesis
    using r c by (simp only: simp_thms)
qed

text \<open>
  C2 as it is stated fails: in \<open>ex_chain\<close> the selected packages are \<^verbatim>\<open>D\<close>, \<^verbatim>\<open>B\<close>, \<^verbatim>\<open>A\<close>
  (indices 0, 1, 2) and \<^verbatim>\<open>A\<close> depends directly on \<^verbatim>\<open>B\<close>, so the claim puts \<^verbatim>\<open>*\<close> in row 2,
  column 1; the code leaves that cell empty and puts the \<^verbatim>\<open>*\<close> in row 1, column 2.
  Moreover the code puts \<^verbatim>\<open>.\<close> in row 0, column 2, since \<^verbatim>\<open>D\<close> is among the recursive
  dependencies of \<^verbatim>\<open>A\<close>, although the collector has no indirect edge between \<^verbatim>\<open>A\<close> and
  \<^verbatim>\<open>D\<close> in either direction.
\<close>

theorem claimed_cell_counterexample:
  "claimed_cell ex_chain 2 1 = CHR ''*''
   \<and> cell ex_chain (fst (matrix (stored_closure ex_chain) ex_chain)) 2 1 = CHR '' ''
   \<and> cell ex_chain (fst (matrix (stored_closure ex_chain) ex_chain)) 1 2 = CHR ''*''
   \<and> cell ex_chain (fst (matrix (stored_closure ex_chain) ex_chain)) 0 2 = CHR ''.''
   \<and> claimed_cell ex_chain 0 2 = CHR '' ''
   \<and> claimed_cell ex_chain 2 0 = CHR '' ''"
  by code_simp

text \<open>
  C8: the matrix has one line per selected package; each line is the name padded to the
  longest name plus two, followed by exactly as many symbols as there are selected
  packages, and the symbol on the diagonal is \<^verbatim>\<open>+\<close>.
\<close>

theorem matrix_square:
  "length (fst (matrix grd decos)) = length (shown_decorators decos)
   \<and> (\<forall>r < length (shown_decorators decos).
        \<exists>cells. fst (matrix grd decos) ! r =
                  ljust (max_length decos + 2) (name (descriptor (shown_decorators decos ! r)))
                  @ cells
              \<and> length (ljust (max_length decos + 2)
                          (name (descriptor (shown_decorators decos ! r)))) = max_length decos + 2
              \<and> length cells = length (shown_decorators decos)
              \<and> cells ! r = CHR ''+'')"
proof (intro conjI allI impI)
  show "length (fst (matrix grd decos)) = length (shown_decorators decos)"
    by (rule matrix_length)
next
  fix r assume r: "r < length (shown_decorators decos)"
  let ?cells = "map (\<lambda>c. symbol (shown_decorators decos)
                  (map (\<lambda>m. get_dependencies (descriptor m)) (shown_decorators decos))
                  (map (\<lambda>m. grd (descriptor m) (map descriptor decos)) (shown_decorators decos))
                  c r)
         [0..<length (shown_decorators decos)]"
  have "fst (matrix grd decos) ! r =
          ljust (max_length decos + 2) (name (descriptor (shown_decorators decos ! r))) @ ?cells"
    using r by (rule matrix_row)
  moreover have "length (ljust (max_length decos + 2)
                          (name (descriptor (shown_decorators decos ! r)))) = max_length decos + 2"
    using r by (rule matrix_prefix_length)
  moreover have "length ?cells = length (shown_decorators decos)"
    by simp
  moreover have "?cells ! r = CHR ''+''"
    using r by (simp add: symbol_def)
  ultimately show "\<exists>cells. fst (matrix grd decos) ! r =
                  ljust (max_length decos + 2) (name (descriptor (shown_decorators decos ! r)))
                  @ cells
              \<and> length (ljust (max_length decos + 2)
                          (name (descriptor (shown_decorators decos ! r)))) = max_length decos + 2
              \<and> length cells = length (shown_decorators decos)
              \<and> cells ! r = CHR ''+''"
    by blast
qed

theorem matrix_square_witness:
  "1 < length (shown_decorators ex_chain)
   \<and> length (fst (matrix (stored_closure ex_chain) ex_chain)) = 3
   \<and> (\<exists>cells. fst (matrix (stored_closure ex_chain) ex_chain) ! 1 = ''B  '' @ cells
         \<and> length cells = 3 \<and> cells ! 1 = CHR ''+'')"
proof -
  have r: "1 < length (shown_decorators ex_chain)"
    by code_simp
  have n: "length (shown_decorators ex_chain) = 3"
    by code_simp
  have pad: "ljust (max_length ex_chain + 2) (name (descriptor (shown_decorators ex_chain ! 1)))
             = ''B  ''"
    by code_simp
  have "length (fst (matrix (stored_closure ex_chain) ex_chain)) = 3"
    using matrix_square [of "stored_closure ex_chain" ex_chain] by (simp only: n)
  moreover have "\<exists>cells. fst (matrix (stored_closure ex_chain) ex_chain) ! 1 = ''B  '' @ cells
         \<and> length cells = 3 \<and> cells ! 1 = CHR ''+''"
    using matrix_square [of "stored_closure ex_chain" ex_chain, THEN conjunct2, rule_format, OF r]
    unfolding pad n by blast
  ultimately show ?thesis
    using r by blast
qed

text \<open>
  C5: with the density requested, the density line carries
  \<open>200 * (1 - empty / (n * (n - 1)))\<close> when more than one package is selected and \<open>0\<close>
  otherwise, where \<open>n\<close> is the number of selected packages and \<open>empty\<close> the counter of the
  matrix; the value lies between 0 and 200. The arithmetic is that of the real numbers, and
  the formatting with two decimals is left to the line.
\<close>

theorem density_reported:
  "render_matrix lg True grd decos =
     (if lg then map Text legend else [])
     @ [DensityLine (density_percentage (length (shown_decorators decos)) (snd (matrix grd decos))),
        Text []]
     @ map Text (fst (matrix grd decos))
   \<and> (1 < length (shown_decorators decos) \<longrightarrow>
        density_percentage (length (shown_decorators decos)) (snd (matrix grd decos)) =
          200 * (1 - real (snd (matrix grd decos))
                     / real (length (shown_decorators decos) * (length (shown_decorators decos) - 1))))
   \<and> (length (shown_decorators decos) \<le> 1 \<longrightarrow>
        density_percentage (length (shown_decorators decos)) (snd (matrix grd decos)) = 0)
   \<and> 0 \<le> density_percentage (length (shown_decorators decos)) (snd (matrix grd decos))
   \<and> density_percentage (length (shown_decorators decos)) (snd (matrix grd decos)) \<le> 200"
proof -
  let ?n = "length (shown_decorators decos)"
  let ?e = "snd (matrix grd decos)"
  have out: "render_matrix lg True grd decos =
     (if lg then map Text legend else [])
     @ [DensityLine (density_percentage ?n ?e), Text []]
     @ map Text (fst (matrix grd decos))"
    by (simp add: render_matrix_def split_beta matrix_length)
  have le: "?e \<le> ?n * (?n - 1)"
    by (rule matrix_empty_cells_le)
  have many: "density_percentage ?n ?e = 200 * (1 - real ?e / real (?n * (?n - 1)))" if "1 < ?n"
    using that by (simp add: density_percentage_def)
  have few: "density_percentage ?n ?e = 0" if "?n \<le> 1"
    using that by (simp add: density_percentage_def)
  have bounds: "0 \<le> density_percentage ?n ?e \<and> density_percentage ?n ?e \<le> 200"
  proof (cases "1 < ?n")
    case True
    then have "0 < ?n * (?n - 1)" by auto
    then have pos: "0 < real (?n * (?n - 1))"
      by (simp only: of_nat_0_less_iff)
    have "real ?e \<le> real (?n * (?n - 1))"
      using le by (simp only: of_nat_le_iff)
    then have "real ?e / real (?n * (?n - 1)) \<le> 1"
      using pos by (simp add: divide_le_eq)
    moreover have "0 \<le> real ?e / real (?n * (?n - 1))"
      by simp
    ultimately show ?thesis
      unfolding many [OF True] by simp
  next
    case False
    then show ?thesis by (simp add: few)
  qed
  from out many few bounds show ?thesis by blast
qed

theorem density_reported_witness:
  "1 < length (shown_decorators ex_chain)
   \<and> density_percentage (length (shown_decorators ex_chain))
        (snd (matrix (stored_closure ex_chain) ex_chain)) = 100"
proof -
  have n: "length (shown_decorators ex_chain) = 3"
    by code_simp
  have e: "snd (matrix (stored_closure ex_chain) ex_chain) = 3"
    by code_simp
  have "1 < length (shown_decorators ex_chain)"
    by (simp add: n)
  moreover from this have "density_percentage (length (shown_decorators ex_chain))
        (snd (matrix (stored_closure ex_chain) ex_chain)) =
      200 * (1 - real (snd (matrix (stored_closure ex_chain) ex_chain))
                     / real (length (shown_decorators ex_chain)
                             * (length (shown_decorators ex_chain) - 1)))"
    using density_reported [of True "stored_closure ex_chain" ex_chain] by blast
  ultimately show ?thesis
    by (simp add: n e)
qed

text \<open>
  C9: when no package is selected the matrix has no line, the density line reads 0, and
  the graph is the line \<^verbatim>\<open>digraph graphname {\<close> followed by \<^verbatim>\<open>}\<close>; no exception escapes.
\<close>

theorem empty_selection:
  assumes "\<forall>m\<in>set decos. \<not> selected m"
  shows "fst (matrix grd decos) = []
    \<and> render_matrix lg False grd decos = (if lg then map Text legend else [])
    \<and> render_matrix lg True grd decos =
        (if lg then map Text legend else []) @ [DensityLine 0, Text []]
    \<and> render_dot cl decos = Inr [''digraph graphname {'', ''}'']"
  using assms
  by (simp add: no_selection_matrix no_selection_dot render_matrix_def density_percentage_def)

theorem empty_selection_witness:
  "render_matrix False True (stored_closure ex_none) ex_none = [DensityLine 0, Text []]
   \<and> render_dot True ex_none = Inr [''digraph graphname {'', ''}'']"
proof -
  have "\<forall>m\<in>set ex_none. \<not> selected m"
    by (simp add: ex_none_def package_def)
  from empty_selection [OF this, of "stored_closure ex_none" False True]
  show ?thesis by simp
qed

text \<open>
  C3: no key \<^verbatim>\<open>(descriptor, name)\<close> is in both the dictionary of direct edges and the one of
  indirect edges; and in the matrix a cell of a pair with a direct dependency always shows
  \<^verbatim>\<open>*\<close>, so that \<^verbatim>\<open>.\<close> only marks pairs without one.
\<close>

theorem direct_suppresses_indirect:
  "keys (direct_edges decos) \<inter> keys (indirect_edges decos) = {}
   \<and> (\<forall>r < length (shown_decorators decos). \<forall>c < length (shown_decorators decos).
        (c \<noteq> r \<and> name (descriptor (shown_decorators decos ! r))
                    \<in> set (get_dependencies (descriptor (shown_decorators decos ! c)))
           \<longrightarrow> cell decos (fst (matrix grd decos)) r c = CHR ''*'')
        \<and> (cell decos (fst (matrix grd decos)) r c = CHR ''.''
           \<longrightarrow> name (descriptor (shown_decorators decos ! r))
                    \<notin> set (get_dependencies (descriptor (shown_decorators decos ! c)))))"
proof (intro conjI allI impI)
  show "keys (direct_edges decos) \<inter> keys (indirect_edges decos) = {}"
    by (rule direct_indirect_disjoint)
next
  fix r c
  assume "r < length (shown_decorators decos)" and "c < length (shown_decorators decos)"
    and "c \<noteq> r \<and> name (descriptor (shown_decorators decos ! r))
                    \<in> set (get_dependencies (descriptor (shown_decorators decos ! c)))"
  then show "cell decos (fst (matrix grd decos)) r c = CHR ''*''"
    by (simp add: matrix_cell_symbol symbol_shown)
next
  fix r c
  assume "r < length (shown_decorators decos)" and "c < length (shown_decorators decos)"
    and "cell decos (fst (matrix grd decos)) r c = CHR ''.''"
  then show "name (descriptor (shown_decorators decos ! r))
                    \<notin> set (get_dependencies (descriptor (shown_decorators decos ! c)))"
    by (simp add: matrix_cell_symbol symbol_shown split: if_splits)
qed

theorem direct_suppresses_indirect_witness:
  "1 < length (shown_decorators ex_chain) \<and> 2 < length (shown_decorators ex_chain)
   \<and> name (descriptor (shown_decorators ex_chain ! 1))
        \<in> set (stored_closure ex_chain (descriptor (shown_decorators ex_chain ! 2))
                 (map descriptor ex_chain))
   \<and> cell ex_chain (fst (matrix (stored_closure ex_chain) ex_chain)) 1 2 = CHR ''*''"
proof -
  have r: "1 < length (shown_decorators ex_chain)"
    by code_simp
  have c: "2 < length (shown_decorators ex_chain)"
    by code_simp
  have dep: "(2::nat) \<noteq> 1 \<and> name (descriptor (shown_decorators ex_chain ! 1))
                    \<in> set (get_dependencies (descriptor (shown_decorators ex_chain ! 2)))"
    by code_simp
  have clo: "name (descriptor (shown_decorators ex_chain ! 1))
        \<in> set (stored_closure ex_chain (descriptor (shown_decorators ex_chain ! 2))
                 (map descriptor ex_chain))"
    by code_simp
  have "cell ex_chain (fst (matrix (stored_closure ex_chain) ex_chain)) 1 2 = CHR ''*''"
    using direct_suppresses_indirect [of ex_chain "stored_closure ex_chain"] r c dep by blast
  with r c clo show ?thesis by blast
qed

section \<open>Claims about the DOT graph\<close>

text \<open>
  C1: a category is recorded for the indirect edge from descriptor \<open>d\<close> to the name \<open>t\<close>
  exactly when \<open>d\<close> belongs to a selected decorator, \<open>t\<close> is the name of a selected package,
  there is no direct edge for \<open>(d, t)\<close>, and \<open>d\<close> declares under that category a dependency
  that is not the name of a selected package but is the name of a decorator whose recursive
  dependencies contain \<open>t\<close>. The key \<open>(d, t)\<close> exists exactly when some category is recorded
  for it, so a dependency that names no known package leaves no trace.
\<close>

theorem indirect_edge_collector:
  "(category \<in> set (dd_get (d, t) (indirect_edges decos)) \<longleftrightarrow>
     (\<exists>deco\<in>set decos. selected deco \<and> descriptor deco = d \<and>
        t \<in> set (selected_pkg_names decos) \<and> (d, t) \<notin> keys (direct_edges decos) \<and>
        (\<exists>deps dep. (category, deps) \<in> set (dependencies d) \<and> dep \<in> set deps \<and>
           dep \<notin> set (selected_pkg_names decos) \<and>
           (\<exists>other\<in>set decos. name (descriptor other) = dep \<and>
              t \<in> set (recursive_dependencies other)))))
   \<and> ((d, t) \<in> keys (indirect_edges decos) \<longleftrightarrow>
        (\<exists>category. category \<in> set (dd_get (d, t) (indirect_edges decos))))"
  using indirect_edge_iff [of category d t decos] indirect_key_iff [of "(d, t)" decos]
  by (rule conjI)

theorem indirect_edge_collector_witness:
  "''run'' \<in> set (dd_get (descriptor (ex_chain ! 2), ''D'') (indirect_edges ex_chain))
   \<and> (descriptor (ex_chain ! 3), ''D'') \<notin> keys (indirect_edges ex_chain)"
proof -
  have "''run'' \<in> set (dd_get (descriptor (ex_chain ! 2), ''D'') (indirect_edges ex_chain))"
  proof (rule iffD2 [OF indirect_edge_collector [THEN conjunct1]],
      rule bexI [of _ "ex_chain ! 2"], intro conjI)
    show "\<exists>deps dep. (''run'', deps) \<in> set (dependencies (descriptor (ex_chain ! 2))) \<and>
        dep \<in> set deps \<and> dep \<notin> set (selected_pkg_names ex_chain) \<and>
        (\<exists>other\<in>set ex_chain. name (descriptor other) = dep \<and>
           ''D'' \<in> set (recursive_dependencies other))"
    proof (intro exI [of _ "[''C'']"] exI [of _ "''C''"] conjI, goal_cases)
      case 4
      show ?case
        by (rule bexI [of _ "ex_chain ! 1"]) code_simp+
    qed code_simp+
  qed code_simp+
  moreover have "(descriptor (ex_chain ! 3), ''D'') \<notin> keys (indirect_edges ex_chain)"
    by code_simp
  ultimately show ?thesis by (rule conjI)
qed

text \<open>
  C4: when the names of the selected packages are pairwise different, the token of a
  node is its name and there is no attribute; when two selected packages share a name, the
  token of every node is the name, an underscore and the identity of the descriptor, and the
  attribute is a label with the name. Selected packages with different identities get
  different tokens in both cases, and with the suffix so do any two descriptors with
  different identities.
\<close>

theorem dot_node_naming:
  \<open>(distinct (selected_pkg_names decos) \<longrightarrow>
      get_node_data (has_duplicate_names decos) d = (name d, []))
   \<and> (\<not> distinct (selected_pkg_names decos) \<longrightarrow>
      get_node_data (has_duplicate_names decos) d =
        (name d @ ''_'' @ str_nat (ident d), '' [label = "'' @ name d @ ''"]''))
   \<and> (distinct (map (\<lambda>m. ident (descriptor m)) (filter selected decos)) \<longrightarrow>
      distinct (map (\<lambda>m. fst (get_node_data (has_duplicate_names decos) (descriptor m)))
                  (filter selected decos)))
   \<and> (\<not> distinct (selected_pkg_names decos) \<and> ident d \<noteq> ident e \<longrightarrow>
      fst (get_node_data (has_duplicate_names decos) d)
        \<noteq> fst (get_node_data (has_duplicate_names decos) e))\<close>
proof -
  have "fst (get_node_data (has_duplicate_names decos) d)
        \<noteq> fst (get_node_data (has_duplicate_names decos) e)"
    if "\<not> distinct (selected_pkg_names decos)" and "ident d \<noteq> ident e"
    using that suffixed_token_inj [of d e] by (auto simp: has_duplicate_names_iff)
  then show ?thesis
    using distinct_tokens [of decos]
    by (simp add: has_duplicate_names_iff get_node_data_def)
qed

theorem dot_node_naming_witness:
  \<open>\<not> distinct (selected_pkg_names ex_overlay)
   \<and> get_node_data (has_duplicate_names ex_overlay) (descriptor (ex_overlay ! 1)) =
        (''x_2'', '' [label = "x"]'')
   \<and> distinct (map (\<lambda>m. fst (get_node_data (has_duplicate_names ex_overlay) (descriptor m)))
                  (filter selected ex_overlay))\<close>
proof -
  have dup: "\<not> distinct (selected_pkg_names ex_overlay)"
    by code_simp
  have ids: "distinct (map (\<lambda>m. ident (descriptor m)) (filter selected ex_overlay))"
    by code_simp
  have tok: \<open>(name (descriptor (ex_overlay ! 1)) @ ''_'' @ str_nat (ident (descriptor (ex_overlay ! 1))),
              '' [label = "'' @ name (descriptor (ex_overlay ! 1)) @ ''"]'') =
             (''x_2'', '' [label = "x"]'')\<close>
    by code_simp
  have "get_node_data (has_duplicate_names ex_overlay) (descriptor (ex_overlay ! 1)) =
        (''x_2'', '' [label = \"x\"]'')"
    using dot_node_naming [of ex_overlay "descriptor (ex_overlay ! 1)"] dup
    unfolding tok by blast
  moreover have "distinct (map (\<lambda>m. fst (get_node_data (has_duplicate_names ex_overlay) (descriptor m)))
                  (filter selected ex_overlay))"
    using dot_node_naming [of ex_overlay] ids by blast
  ultimately show ?thesis
    using dup by blast
qed

text \<open>
  C6 wants every selected package in exactly one cluster whenever clustering is requested,
  and the unclustered output when no common path exists. The code misses the paths anchored
  at \<^verbatim>\<open>//\<close>: in \<open>ex_double_root\<close> both packages lie below \<^verbatim>\<open>//ws\<close>, \<^verbatim>\<open>os.path.commonpath\<close>
  answers \<^verbatim>\<open>/ws\<close>, so that clustering stays enabled, and \<^verbatim>\<open>Path.relative_to\<close> raises
  \<^verbatim>\<open>ValueError\<close> outside the \<^verbatim>\<open>try\<close> that guards \<^verbatim>\<open>commonpath\<close>: no package is placed in a
  cluster and nothing is printed, while the same workspace renders without clustering.
\<close>

theorem clustering_raises_double_root:
  \<open>common_path ex_double_root = Some \<lparr>anchor = Root, parts = [''ws'']\<rparr>
   \<and> relative_to (parent (path (descriptor (ex_double_root ! 0))))
         \<lparr>anchor = Root, parts = [''ws'']\<rparr> = Inl ValueError
   \<and> cluster_nodes \<lparr>anchor = Root, parts = [''ws'']\<rparr> (nodes ex_double_root) [] = Inl ValueError
   \<and> render_dot True ex_double_root = Inl ValueError
   \<and> render_dot False ex_double_root =
       Inr [''digraph graphname {'',
            ''  "B";'',
            ''  "D";'',
            ''  "B" -> "D" [color="red"];'',
            ''}'']\<close>
  by code_simp

text \<open>
  What the clustering does on the other inputs. When no selected package has a path
  anchored at \<^verbatim>\<open>//\<close> and a common path \<open>c\<close> of the parents of the selected packages exists,
  \<open>c\<close> is a prefix of each of these parents, no exception escapes, and every selected
  descriptor lies in exactly the cluster whose key is its parent relative to \<open>c\<close>: the keys
  are pairwise different, a cluster holds a descriptor exactly when it is selected and its
  relative parent is the key, and the clusters together hold the selected descriptors. When
  no common path exists, the output with clustering is the output without it. With a
  common path and a selected package anchored at \<^verbatim>\<open>//\<close>, \<^verbatim>\<open>ValueError\<close> escapes.
\<close>

lemma clusters_cover_selected:
  \<open>(common_path decos = None \<longrightarrow> render_dot True decos = render_dot False decos)
   \<and> (common_path decos \<noteq> None \<and> double_rooted decos \<longrightarrow>
        render_dot True decos = Inl ValueError)
   \<and> (\<forall>c. common_path decos = Some c \<and> \<not> double_rooted decos \<longrightarrow>
        (\<forall>deco\<in>set decos. selected deco \<longrightarrow>
            prefix (parts c) (parts (parent (path (descriptor deco)))))
        \<and> (\<exists>clusters.
              cluster_nodes c (nodes decos) [] = Inr clusters
            \<and> output_clusters decos c =
                Inr (concat (map (cluster_lines (has_duplicate_names decos))
                               (zip [0..<length clusters] clusters)))
            \<and> render_dot True decos =
                Inr ([''digraph graphname {'']
                     @ concat (map (cluster_lines (has_duplicate_names decos))
                                 (zip [0..<length clusters] clusters))
                     @ edge_lines decos [] (direct_edges decos)
                     @ edge_lines decos '', style="dashed"'' (indirect_edges decos)
                     @ [''}''])
            \<and> distinct (map fst clusters)
            \<and> (\<forall>k d. d \<in> set (dd_get k clusters) \<longleftrightarrow>
                  (\<exists>deco\<in>set decos. selected deco \<and> descriptor deco = d
                     \<and> relative_to (parent (path d)) c = Inr k))
            \<and> (\<Union>k\<in>keys clusters. set (dd_get k clusters)) =
                {descriptor deco | deco. deco \<in> set decos \<and> selected deco}))\<close>
proof (intro conjI allI impI)
  assume "common_path decos = None"
  then show "render_dot True decos = render_dot False decos"
    by (simp add: render_dot_def)
next
  assume "common_path decos \<noteq> None \<and> double_rooted decos"
  then show "render_dot True decos = Inl ValueError"
    by (simp add: render_dot_raises)
next
  fix c assume "common_path decos = Some c \<and> \<not> double_rooted decos"
  then have c: "common_path decos = Some c" and single: "\<not> double_rooted decos"
    by simp_all
  have rel: "relative_to (parent (path (descriptor deco))) c =
      Inr \<lparr>anchor = Relative,
           parts = drop (length (parts c)) (parts (parent (path (descriptor deco))))\<rparr>"
    if "deco \<in> set decos" and "selected deco" for deco
    using node_relative_to [OF c that] single that by (auto simp: double_rooted_iff)
  show "\<forall>deco\<in>set decos. selected deco \<longrightarrow>
            prefix (parts c) (parts (parent (path (descriptor deco))))"
  proof (intro ballI impI)
    fix deco assume "deco \<in> set decos" and "selected deco"
    then show "prefix (parts c) (parts (parent (path (descriptor deco))))"
      using rel [of deco] by (simp add: relative_to_def split: if_splits)
  qed
  obtain clusters where cl: "cluster_nodes c (nodes decos) [] = Inr clusters"
    and di: "distinct (map fst clusters)" and fi: "filled clusters"
    and en: "entries clusters =
         {(rel, descriptor deco) | rel deco. deco \<in> set decos \<and> selected deco
            \<and> relative_to (parent (path (descriptor deco))) c = Inr rel}"
    using clusters_of_nodes [OF c single] by blast
  have out: "output_clusters decos c =
                Inr (concat (map (cluster_lines (has_duplicate_names decos))
                               (zip [0..<length clusters] clusters)))"
    by (simp add: output_clusters_def cl)
  have mem: "d \<in> set (dd_get k clusters) \<longleftrightarrow>
                  (\<exists>deco\<in>set decos. selected deco \<and> descriptor deco = d
                     \<and> relative_to (parent (path d)) c = Inr k)" for k d
    using mem_entries [of k d clusters] unfolding en by blast
  have un: "(\<Union>k\<in>keys clusters. set (dd_get k clusters)) =
                {descriptor deco | deco. deco \<in> set decos \<and> selected deco}"
  proof (rule set_eqI)
    fix d
    have "d \<in> (\<Union>k\<in>keys clusters. set (dd_get k clusters)) \<longleftrightarrow> (\<exists>k. d \<in> set (dd_get k clusters))"
      using keys_filled [OF fi] by (auto simp: mem_entries)
    also have "\<dots> \<longleftrightarrow> (\<exists>deco\<in>set decos. selected deco \<and> descriptor deco = d)"
    proof
      assume "\<exists>k. d \<in> set (dd_get k clusters)"
      then show "\<exists>deco\<in>set decos. selected deco \<and> descriptor deco = d"
        unfolding mem by blast
    next
      assume "\<exists>deco\<in>set decos. selected deco \<and> descriptor deco = d"
      then obtain deco where deco: "deco \<in> set decos" "selected deco" "descriptor deco = d"
        by blast
      have "relative_to (parent (path d)) c =
          Inr \<lparr>anchor = Relative, parts = drop (length (parts c)) (parts (parent (path d)))\<rparr>"
        using rel [OF deco(1,2)] by (simp add: deco(3))
      with deco show "\<exists>k. d \<in> set (dd_get k clusters)"
        unfolding mem by blast
    qed
    finally show "d \<in> (\<Union>k\<in>keys clusters. set (dd_get k clusters)) \<longleftrightarrow>
        d \<in> {descriptor deco | deco. deco \<in> set decos \<and> selected deco}"
      by blast
  qed
  have dot: \<open>render_dot True decos =
                Inr ([''digraph graphname {'']
                     @ concat (map (cluster_lines (has_duplicate_names decos))
                                 (zip [0..<length clusters] clusters))
                     @ edge_lines decos [] (direct_edges decos)
                     @ edge_lines decos '', style="dashed"'' (indirect_edges decos)
                     @ [''}''])\<close>
    by (simp add: render_dot_def c out)
  from dot cl out di mem un show \<open>\<exists>clusters.
              cluster_nodes c (nodes decos) [] = Inr clusters
            \<and> output_clusters decos c =
                Inr (concat (map (cluster_lines (has_duplicate_names decos))
                               (zip [0..<length clusters] clusters)))
            \<and> render_dot True decos =
                Inr ([''digraph graphname {'']
                     @ concat (map (cluster_lines (has_duplicate_names decos))
                                 (zip [0..<length clusters] clusters))
                     @ edge_lines decos [] (direct_edges decos)
                     @ edge_lines decos '', style="dashed"'' (indirect_edges decos)
                     @ [''}''])
            \<and> distinct (map fst clusters)
            \<and> (\<forall>k d. d \<in> set (dd_get k clusters) \<longleftrightarrow>
                  (\<exists>deco\<in>set decos. selected deco \<and> descriptor deco = d
                     \<and> relative_to (parent (path d)) c = Inr k))
            \<and> (\<Union>k\<in>keys clusters. set (dd_get k clusters)) =
                {descriptor deco | deco. deco \<in> set decos \<and> selected deco}\<close>
    by blast
qed

lemma clusters_cover_selected_example:
  "common_path ex_mixed = None
   \<and> render_dot True ex_mixed = render_dot False ex_mixed
   \<and> common_path ex_chain = Some \<lparr>anchor = Root, parts = [''ws'']\<rparr>
   \<and> \<not> double_rooted ex_chain
   \<and> (\<exists>clusters.
          cluster_nodes \<lparr>anchor = Root, parts = [''ws'']\<rparr> (nodes ex_chain) [] = Inr clusters
        \<and> distinct (map fst clusters)
        \<and> (\<Union>k\<in>keys clusters. set (dd_get k clusters)) =
            {descriptor deco | deco. deco \<in> set ex_chain \<and> selected deco})"
proof -
  have none: "common_path ex_mixed = None"
    by code_simp
  have some: "common_path ex_chain = Some \<lparr>anchor = Root, parts = [''ws'']\<rparr>"
    by code_simp
  have single: "\<not> double_rooted ex_chain"
    by code_simp
  have "render_dot True ex_mixed = render_dot False ex_mixed"
    using clusters_cover_selected [of ex_mixed] none by blast
  moreover have "\<exists>clusters.
          cluster_nodes \<lparr>anchor = Root, parts = [''ws'']\<rparr> (nodes ex_chain) [] = Inr clusters
        \<and> distinct (map fst clusters)
        \<and> (\<Union>k\<in>keys clusters. set (dd_get k clusters)) =
            {descriptor deco | deco. deco \<in> set ex_chain \<and> selected deco}"
    using clusters_cover_selected [of ex_chain] some single by blast
  ultimately show ?thesis
    using none some single by blast
qed



text \<open>
  C10: a direct edge gives a line for every decorator that bears the name of the target,
  selected or not, while the declarations are those of the descriptors of the selected
  decorators. In \<open>ex_overlay\<close>, where the tokens carry the identities, the package \<^verbatim>\<open>a\<close> gets
  an edge to the unselected \<^verbatim>\<open>x\<close>, whose token \<^verbatim>\<open>x_3\<close> is declared nowhere (the three edge
  lines are shown in the order of the decorators).
\<close>

theorem dot_edge_to_unselected:
  \<open>(\<forall>d t categories deco.
       ((d, t), categories) \<in> set (direct_edges decos) \<and> deco \<in> set decos
       \<and> name (descriptor deco) = t \<longrightarrow>
       edge_line (fst (get_node_data (has_duplicate_names decos) d))
          (fst (get_node_data (has_duplicate_names decos) (descriptor deco)))
          (colors categories) []
         \<in> set (edge_lines decos [] (direct_edges decos)))
   \<and> set (output_nodes decos) =
       node_line ''  '' (has_duplicate_names decos)
         ` {descriptor deco | deco. deco \<in> set decos \<and> selected deco}
   \<and> render_dot False ex_overlay =
       Inr [''digraph graphname {'',
            ''  "a_4" [label = "a"];'',
            ''  "x_2" [label = "x"];'',
            ''  "x_1" [label = "x"];'',
            ''  "a_4" -> "x_1" [color="blue"];'',
            ''  "a_4" -> "x_2" [color="blue"];'',
            ''  "a_4" -> "x_3" [color="blue"];'',
            ''}'']\<close>
proof (intro conjI allI impI)
  fix d t categories deco
  assume "((d, t), categories) \<in> set (direct_edges decos) \<and> deco \<in> set decos
       \<and> name (descriptor deco) = t"
  then show "edge_line (fst (get_node_data (has_duplicate_names decos) d))
          (fst (get_node_data (has_duplicate_names decos) (descriptor deco)))
          (colors categories) []
         \<in> set (edge_lines decos [] (direct_edges decos))"
    unfolding set_edge_lines by blast
next
  show "set (output_nodes decos) =
       node_line ''  '' (has_duplicate_names decos)
         ` {descriptor deco | deco. deco \<in> set decos \<and> selected deco}"
    by (rule set_output_nodes)
next
  show \<open>render_dot False ex_overlay =
       Inr [''digraph graphname {'',
            ''  "a_4" [label = "a"];'',
            ''  "x_2" [label = "x"];'',
            ''  "x_1" [label = "x"];'',
            ''  "a_4" -> "x_1" [color="blue"];'',
            ''  "a_4" -> "x_2" [color="blue"];'',
            ''  "a_4" -> "x_3" [color="blue"];'',
            ''}'']\<close>
    by code_simp
qed

theorem dot_edge_to_unselected_witness:
  \<open>\<not> selected (ex_overlay ! 2)
   \<and> ''  "a_4" -> "x_3" [color="blue"];'' \<in> set (edge_lines ex_overlay [] (direct_edges ex_overlay))\<close>
proof -
  have unsel: "\<not> selected (ex_overlay ! 2)"
    by code_simp
  have edge: "((descriptor (ex_overlay ! 3), ''x''), [''build'']) \<in> set (direct_edges ex_overlay)
       \<and> ex_overlay ! 2 \<in> set ex_overlay \<and> name (descriptor (ex_overlay ! 2)) = ''x''"
    by code_simp
  have line: \<open>edge_line (fst (get_node_data (has_duplicate_names ex_overlay) (descriptor (ex_overlay ! 3))))
          (fst (get_node_data (has_duplicate_names ex_overlay) (descriptor (ex_overlay ! 2))))
          (colors [''build'']) [] = ''  "a_4" -> "x_3" [color="blue"];''\<close>
    by code_simp
  have "edge_line (fst (get_node_data (has_duplicate_names ex_overlay) (descriptor (ex_overlay ! 3))))
          (fst (get_node_data (has_duplicate_names ex_overlay) (descriptor (ex_overlay ! 2))))
          (colors [''build'']) []
         \<in> set (edge_lines ex_overlay [] (direct_edges ex_overlay))"
    using dot_edge_to_unselected [of ex_overlay] edge by blast
  then show ?thesis
    using unsel unfolding line by blast
qed

end
